theory Spec2Isabelle
  imports Main
begin

section \<open>Text: Python strings as lists of code points\<close>

text \<open>
  A Python \<^verbatim>\<open>str\<close> is a sequence of Unicode code points: \<^verbatim>\<open>len\<close>, slicing and the
  positions reported by \<^verbatim>\<open>re\<close> all count code points.  The scraper's patterns contain the
  rupee sign U+20B9, which is not a byte, so a string is modelled as a list of code
  points.  \<open>cps\<close> turns an ASCII literal into such a list.
\<close>

type_synonym pychar = nat
type_synonym pystr = "pychar list"

definition cps :: "string \<Rightarrow> pystr" where
  "cps s = map of_char s"

definition rupee :: pychar where
  "rupee = 8377"

text \<open>
  \<^verbatim>\<open>\s\<close> in a \<^verbatim>\<open>str\<close> pattern and \<^verbatim>\<open>str.strip()\<close> use the same test, \<^verbatim>\<open>str.isspace\<close>:
  U+0009..000D, U+001C..0020, U+0085, U+00A0, U+1680, U+2000..200A, U+2028, U+2029,
  U+202F, U+205F and U+3000.
\<close>

definition is_space :: "pychar \<Rightarrow> bool" where
  "is_space c \<longleftrightarrow>
     (9 \<le> c \<and> c \<le> 13) \<or> (28 \<le> c \<and> c \<le> 32) \<or> c = 133 \<or> c = 160 \<or> c = 5760 \<or>
     (8192 \<le> c \<and> c \<le> 8202) \<or> c = 8232 \<or> c = 8233 \<or> c = 8239 \<or> c = 8287 \<or> c = 12288"

text \<open>
  \<^verbatim>\<open>\d\<close> in a \<^verbatim>\<open>str\<close> pattern is the Unicode category Nd (\<^verbatim>\<open>str.isdecimal\<close>).  The
  category is a union of blocks of ten consecutive code points; \<open>digit_zeros\<close> lists the
  zero of each block (Unicode 14, the first entry being ASCII \<^verbatim>\<open>0\<close>).
\<close>

definition digit_zeros :: "pychar list" where
  "digit_zeros =
    [48, 1632, 1776, 1984, 2406, 2534, 2662, 2790, 2918, 3046, 3174, 3302, 3430, 3558,
     3664, 3792, 3872, 4160, 4240, 6112, 6160, 6470, 6608, 6784, 6800, 6992, 7088, 7232,
     7248, 42528, 43216, 43264, 43472, 43504, 43600, 44016, 65296, 66720, 68912, 69734,
     69872, 69942, 70096, 70384, 70736, 70864, 71248, 71360, 71472, 71904, 72016, 72784,
     73040, 73120, 92768, 92864, 93008, 120782, 120792, 120802, 120812, 120822, 123200,
     123632, 125264, 130032]"

definition is_digit :: "pychar \<Rightarrow> bool" where
  "is_digit c \<longleftrightarrow> list_ex (\<lambda>z. z \<le> c \<and> c \<le> z + 9) digit_zeros"

text \<open>
  \<^verbatim>\<open>s.strip()\<close> removes the leading and the trailing run of whitespace;
  \<^verbatim>\<open>s[i:j]\<close> for \<open>0 \<le> i \<le> j\<close> is \<open>slice s i j\<close> (Python clamps \<open>j\<close> to the length, as
  \<open>take\<close> does).
\<close>

definition lstrip :: "pystr \<Rightarrow> pystr" where
  "lstrip s = dropWhile is_space s"

definition rstrip :: "pystr \<Rightarrow> pystr" where
  "rstrip s = rev (dropWhile is_space (rev s))"

definition strip :: "pystr \<Rightarrow> pystr" where
  "strip s = rstrip (lstrip s)"

definition slice :: "pystr \<Rightarrow> nat \<Rightarrow> nat \<Rightarrow> pystr" where
  "slice s i j = take (j - i) (drop i s)"

section \<open>The regular expressions of the scraper\<close>

text \<open>
  The patterns of \<^verbatim>\<open>main.py\<close> use character classes, concatenation, alternation, a
  greedy optional group and greedy \<^verbatim>\<open>*\<close>/\<^verbatim>\<open>+\<close> on single character classes.
  \<open>ends r s\<close> lists, in the order in which Python's backtracking matcher tries them, the
  remainders of \<open>s\<close> after every way of matching \<open>r\<close> at the start of \<open>s\<close>: a greedy
  quantifier tries the longer match first, an alternation its left branch first.  The
  match that \<^verbatim>\<open>re\<close> reports at a position is the first of the list.
\<close>

datatype regex =
    Eps
  | Cls "pychar \<Rightarrow> bool"
  | Seq regex regex
  | Alt regex regex
  | Opt regex
  | Star "pychar \<Rightarrow> bool"

fun ends :: "regex \<Rightarrow> pystr \<Rightarrow> pystr list" where
  "ends Eps s = [s]"
| "ends (Cls P) [] = []"
| "ends (Cls P) (c # cs) = (if P c then [cs] else [])"
| "ends (Seq a b) s = concat (map (ends b) (ends a s))"
| "ends (Alt a b) s = ends a s @ ends b s"
| "ends (Opt a) s = ends a s @ [s]"
| "ends (Star P) [] = [[]]"
| "ends (Star P) (c # cs) = (if P c then ends (Star P) cs @ [c # cs] else [c # cs])"

definition Plus :: "(pychar \<Rightarrow> bool) \<Rightarrow> regex" where
  "Plus P = Seq (Cls P) (Star P)"

definition re_match :: "regex \<Rightarrow> pystr \<Rightarrow> pystr option" where
  "re_match r s = (case ends r s of [] \<Rightarrow> None | rest # _ \<Rightarrow> Some rest)"

text \<open>
  \<^verbatim>\<open>re.finditer\<close>: scan from the left, report the match at the first position where the
  pattern matches as a pair (start, end), go on from its end.  Every pattern of the
  scraper consumes at least one character; a position where the match would be empty is
  passed over like a position without a match.
\<close>

function finditer_from :: "regex \<Rightarrow> nat \<Rightarrow> pystr \<Rightarrow> (nat \<times> nat) list" where
  "finditer_from r pos [] = []"
| "finditer_from r pos (c # cs) =
     (case re_match r (c # cs) of
        None \<Rightarrow> finditer_from r (pos + 1) cs
      | Some rest \<Rightarrow>
          if length rest < length (c # cs)
          then (pos, pos + (length (c # cs) - length rest))
                 # finditer_from r (pos + (length (c # cs) - length rest)) rest
          else finditer_from r (pos + 1) cs)"
  by pat_completeness auto
termination
  by (relation "measure (\<lambda>(r, pos, s). length s)") auto

definition finditer :: "regex \<Rightarrow> pystr \<Rightarrow> (nat \<times> nat) list" where
  "finditer r s = finditer_from r 0 s"

text \<open>\<^verbatim>\<open>re.findall\<close> for a pattern without groups: the matched texts.\<close>

definition findall :: "regex \<Rightarrow> pystr \<Rightarrow> pystr list" where
  "findall r s = map (\<lambda>(i, j). slice s i j) (finditer r s)"

text \<open>\<^verbatim>\<open>re.sub\<close>: the text between the matches, each match replaced by \<open>repl\<close>.\<close>

fun sub_pieces :: "(nat \<times> nat) list \<Rightarrow> pystr \<Rightarrow> nat \<Rightarrow> pystr \<Rightarrow> pystr" where
  "sub_pieces [] repl pos s = drop pos s"
| "sub_pieces ((i, j) # ms) repl pos s = slice s pos i @ repl @ sub_pieces ms repl j s"

definition re_sub :: "regex \<Rightarrow> pystr \<Rightarrow> pystr \<Rightarrow> pystr" where
  "re_sub r repl s = sub_pieces (finditer r s) repl 0 s"

text \<open>
  \<^verbatim>\<open>re.search\<close>: the first position, from the left, where the pattern matches, with the
  end of the match there.
\<close>

fun search_from :: "regex \<Rightarrow> nat \<Rightarrow> pystr \<Rightarrow> (nat \<times> nat) option" where
  "search_from r pos [] =
     (case re_match r [] of None \<Rightarrow> None | Some rest \<Rightarrow> Some (pos, pos))"
| "search_from r pos (c # cs) =
     (case re_match r (c # cs) of
        None \<Rightarrow> search_from r (pos + 1) cs
      | Some rest \<Rightarrow> Some (pos, pos + (length (c # cs) - length rest)))"

definition re_search :: "regex \<Rightarrow> pystr \<Rightarrow> (nat \<times> nat) option" where
  "re_search r s = search_from r 0 s"

text \<open>
  Under \<^verbatim>\<open>re.IGNORECASE\<close> a lower-case ASCII letter of a pattern matches itself and its
  capital; \<^verbatim>\<open>s\<close> also matches U+017F (long s).  No other code point matches one of the
  letters the scraper's patterns are written with.
\<close>

definition icase :: "pychar \<Rightarrow> pychar \<Rightarrow> bool" where
  "icase p c \<longleftrightarrow> c = p \<or> c + 32 = p \<or> (p = 115 \<and> c = 383)"

definition lit_i :: "string \<Rightarrow> regex" where
  "lit_i w = foldr (\<lambda>p r. Seq (Cls (icase (of_char p))) r) w Eps"

section \<open>PriceNormalizer: \<^verbatim>\<open>extract_price\<close>\<close>

text \<open>
  \<^verbatim>\<open>
  def extract_price(self, price_text):
      if not price_text:
          return None
      price_clean = re.sub(r'[\u20b9,\s]', '', price_text.strip())
      numbers = re.findall(r'\d+', price_clean)
      if numbers:
          return ''.join(numbers)
      return None
  \<close>
  The argument is a \<^verbatim>\<open>str\<close> or \<^verbatim>\<open>None\<close>; each operation of the body is total on strings,
  so the function has no raising branch.
\<close>

definition is_price_junk :: "pychar \<Rightarrow> bool" where
  "is_price_junk c \<longleftrightarrow> c = rupee \<or> c = 44 \<or> is_space c"

definition extract_price :: "pystr option \<Rightarrow> pystr option" where
  "extract_price price_text =
     (case price_text of
        None \<Rightarrow> None
      | Some t \<Rightarrow>
          if t = [] then None
          else
            let price_clean = re_sub (Cls is_price_junk) [] (strip t);
                numbers = findall (Plus is_digit) price_clean
            in if numbers \<noteq> [] then Some (concat numbers) else None)"

text \<open>
  The spec's wording, for comparison: the cleaned text is the input without currency
  symbol, commas and whitespace; its maximal digit runs are read off from the left.
\<close>

definition cleaned :: "pystr \<Rightarrow> pystr" where
  "cleaned t = filter (\<lambda>c. \<not> is_price_junk c) t"

function max_digit_runs :: "pystr \<Rightarrow> pystr list" where
  "max_digit_runs [] = []"
| "max_digit_runs (c # cs) =
     (if is_digit c
      then takeWhile is_digit (c # cs) # max_digit_runs (dropWhile is_digit cs)
      else max_digit_runs cs)"
  by pat_completeness auto
termination
  by (relation "measure length") (auto simp: length_dropWhile_le less_Suc_eq_le)

section \<open>Listings and the driver's objects\<close>

text \<open>
  A listing is the \<^verbatim>\<open>dict\<close> the scraper builds: its keys in insertion order, each with a
  value that is a \<^verbatim>\<open>str\<close> (\<open>Some s\<close>) or Python's \<^verbatim>\<open>None\<close> (\<open>None\<close>).
  \<open>dict_get d k v\<close> is \<^verbatim>\<open>d.get(k, v)\<close>; \<open>truthy\<close> is the truth value Python gives a
  \<^verbatim>\<open>str\<close>-or-\<^verbatim>\<open>None\<close>, and \<open>or_na v\<close> is \<^verbatim>\<open>v or 'N/A'\<close>.
\<close>

type_synonym pyval = "pystr option"
type_synonym listing = "(string \<times> pyval) list"

definition dict_get :: "listing \<Rightarrow> string \<Rightarrow> pyval \<Rightarrow> pyval" where
  "dict_get d k v = (case map_of d k of None \<Rightarrow> v | Some w \<Rightarrow> w)"

definition N_A :: pystr where
  "N_A = cps ''N/A''"

definition truthy :: "pyval \<Rightarrow> bool" where
  "truthy v \<longleftrightarrow> (case v of None \<Rightarrow> False | Some s \<Rightarrow> s \<noteq> [])"

definition or_na :: "pyval \<Rightarrow> pyval" where
  "or_na v = (if truthy v then v else Some N_A)"

text \<open>
  The exceptions that the code tells apart, and the Selenium objects it reads.  A listing's
  node answers \<^verbatim>\<open>find_element(By.CSS_SELECTOR, selector)\<close> with an element or raises; an
  element answers \<^verbatim>\<open>.text\<close> and \<^verbatim>\<open>.get_attribute('href')\<close> or raises.
  \<open>WebDriverException\<close> stands for any exception other than the ones named.
\<close>

datatype error =
    NoSuchElementException
  | TimeoutException
  | WebDriverException
  | AttributeError
  | OSError

record element =
  elem_text :: "error + pystr"
  elem_href :: "error + pyval"

type_synonym node = "string \<Rightarrow> error + element"

section \<open>FieldExtractor: \<^verbatim>\<open>extract_listing_data\<close>\<close>

definition title_selectors :: "string list" where
  "title_selectors =
     [''[data-aut-id='itemTitle']'', ''h2'', ''h3'', ''.rui-35953'', ''a[href*='/item/']'']"

definition price_selectors :: "string list" where
  "price_selectors =
     [''[data-aut-id='itemPrice']'', ''.rui-ANJaG'', ''span[class*='price']'',
      ''span[class*='amount']'']"

definition location_selectors :: "string list" where
  "location_selectors =
     [''[data-aut-id='item-location']'', ''.rui-1Wks1'', ''span[class*='location']'',
      ''span[class*='place']'']"

definition date_selectors :: "string list" where
  "date_selectors =
     [''[data-aut-id='item-date']'', ''span[class*='date']'', ''span[class*='time']'']"

definition url_selector :: string where
  "url_selector = ''a[href*='/item/']''"

text \<open>
  The loop of the title, the location and the date, with the loop variable as an
  argument:
  \<^verbatim>\<open>
  title = None
  for selector in title_selectors:
      try:
          title_elem = listing_element.find_element(By.CSS_SELECTOR, selector)
          title = title_elem.text.strip()
          if title:
              break
      except NoSuchElementException:
          continue
  data['title'] = title or 'N/A'
  \<close>
  An exception other than \<^verbatim>\<open>NoSuchElementException\<close> leaves the loop (\<open>Inl\<close>).
\<close>

fun text_chain :: "node \<Rightarrow> string list \<Rightarrow> pyval \<Rightarrow> error + pyval" where
  "text_chain listing_element [] title = Inr title"
| "text_chain listing_element (selector # selectors) title =
     (case listing_element selector of
        Inl NoSuchElementException \<Rightarrow> text_chain listing_element selectors title
      | Inl e \<Rightarrow> Inl e
      | Inr title_elem \<Rightarrow>
          (case elem_text title_elem of
             Inl NoSuchElementException \<Rightarrow> text_chain listing_element selectors title
           | Inl e \<Rightarrow> Inl e
           | Inr t \<Rightarrow>
               if strip t \<noteq> [] then Inr (Some (strip t))
               else text_chain listing_element selectors (Some (strip t))))"

text \<open>
  The loop of the price:
  \<^verbatim>\<open>
  price_text = price_elem.text.strip()
  price = self.extract_price(price_text)
  if price:
      break
  \<close>
\<close>

fun price_chain :: "node \<Rightarrow> string list \<Rightarrow> pyval \<Rightarrow> error + pyval" where
  "price_chain listing_element [] price = Inr price"
| "price_chain listing_element (selector # selectors) price =
     (case listing_element selector of
        Inl NoSuchElementException \<Rightarrow> price_chain listing_element selectors price
      | Inl e \<Rightarrow> Inl e
      | Inr price_elem \<Rightarrow>
          (case elem_text price_elem of
             Inl NoSuchElementException \<Rightarrow> price_chain listing_element selectors price
           | Inl e \<Rightarrow> Inl e
           | Inr t \<Rightarrow>
               if truthy (extract_price (Some (strip t)))
               then Inr (extract_price (Some (strip t)))
               else price_chain listing_element selectors (extract_price (Some (strip t)))))"

text \<open>
  \<^verbatim>\<open>
  try:
      link_elem = listing_element.find_element(By.CSS_SELECTOR, "a[href*='/item/']")
      url = link_elem.get_attribute('href')
  except NoSuchElementException:
      url = 'N/A'
  \<close>
\<close>

definition url_field :: "node \<Rightarrow> error + pyval" where
  "url_field listing_element =
     (case listing_element url_selector of
        Inl NoSuchElementException \<Rightarrow> Inr (Some N_A)
      | Inl e \<Rightarrow> Inl e
      | Inr link_elem \<Rightarrow>
          (case elem_href link_elem of
             Inl NoSuchElementException \<Rightarrow> Inr (Some N_A)
           | Inl e \<Rightarrow> Inl e
           | Inr url \<Rightarrow> Inr url))"

text \<open>
  The body of the outer \<^verbatim>\<open>try\<close>, and \<^verbatim>\<open>extract_listing_data\<close> itself, whose
  \<^verbatim>\<open>except Exception\<close> turns every exception of the body into the result \<^verbatim>\<open>None\<close>.
\<close>

definition extract_listing_body :: "node \<Rightarrow> error + listing" where
  "extract_listing_body listing_element =
     (case text_chain listing_element title_selectors None of
        Inl e \<Rightarrow> Inl e
      | Inr title \<Rightarrow>
     (case price_chain listing_element price_selectors None of
        Inl e \<Rightarrow> Inl e
      | Inr price \<Rightarrow>
     (case text_chain listing_element location_selectors None of
        Inl e \<Rightarrow> Inl e
      | Inr location \<Rightarrow>
     (case text_chain listing_element date_selectors None of
        Inl e \<Rightarrow> Inl e
      | Inr date \<Rightarrow>
     (case url_field listing_element of
        Inl e \<Rightarrow> Inl e
      | Inr url \<Rightarrow>
          Inr [(''title'', or_na title), (''price'', or_na price),
               (''location'', or_na location), (''date'', or_na date), (''url'', url)])))))"

definition extract_listing_data :: "node \<Rightarrow> listing option" where
  "extract_listing_data listing_element =
     (case extract_listing_body listing_element of Inl e \<Rightarrow> None | Inr data \<Rightarrow> Some data)"

section \<open>ListingLocator: \<^verbatim>\<open>wait_for_listings\<close>\<close>

text \<open>
  \<^verbatim>\<open>WebDriverWait(self.driver, timeout).until(EC.presence_of_element_located(...))\<close>
  returns when an element is present, raises \<^verbatim>\<open>TimeoutException\<close> when the time is up, and
  lets any other exception of the driver through.  The page is given by that outcome for
  each selector.  The loop also returns the selectors it has waited for, in order, so
  that the traversal can be stated.
\<close>

definition listing_selectors :: "string list" where
  "listing_selectors =
     [''[data-aut-id='itemBox']'', ''.EIR5N'', ''[data-aut-id='itemTitle']'', ''.rui-38N2G'',
      ''.rui-1ykdW'', ''li[data-aut-id='itemBox']'']"

fun wait_loop ::
  "(string \<Rightarrow> error + unit) \<Rightarrow> string list \<Rightarrow> string list \<Rightarrow> (error + string option) \<times> string list"
where
  "wait_loop until [] tried = (Inr None, tried)"
| "wait_loop until (selector # selectors) tried =
     (case until selector of
        Inr _ \<Rightarrow> (Inr (Some selector), tried @ [selector])
      | Inl TimeoutException \<Rightarrow> wait_loop until selectors (tried @ [selector])
      | Inl e \<Rightarrow> (Inl e, tried @ [selector]))"

text \<open>The outer \<^verbatim>\<open>except Exception\<close> of \<^verbatim>\<open>wait_for_listings\<close> returns \<^verbatim>\<open>None\<close>.\<close>

definition wait_for_listings_traced ::
  "(string \<Rightarrow> error + unit) \<Rightarrow> string option \<times> string list" where
  "wait_for_listings_traced until =
     (case wait_loop until listing_selectors [] of
        (Inl e, tried) \<Rightarrow> (None, tried)
      | (Inr selector, tried) \<Rightarrow> (selector, tried))"

definition wait_for_listings :: "(string \<Rightarrow> error + unit) \<Rightarrow> string option" where
  "wait_for_listings until = fst (wait_for_listings_traced until)"

section \<open>The browser session\<close>

text \<open>
  What the scraper asks of the browser, over a type \<open>'p\<close> of page states: loading the
  search page, waiting for a selector, the page source, writing the debug file, reading
  \<^verbatim>\<open>document.body.scrollHeight\<close>, scrolling to the bottom (followed by the settle delay),
  \<^verbatim>\<open>find_elements\<close>, and \<^verbatim>\<open>driver.quit()\<close>.  \<open>setup_driver\<close> is the result of the method of
  that name, which catches its own exceptions and answers with a truth value.
\<close>

record 'p browser =
  setup_driver :: bool
  driver_get :: "error + 'p"
  wait_until :: "'p \<Rightarrow> string \<Rightarrow> error + unit"
  driver_page_source :: "'p \<Rightarrow> error + pystr"
  write_file :: "pystr \<Rightarrow> error + unit"
  scroll_height :: "'p \<Rightarrow> error + int"
  scroll_to_bottom :: "'p \<Rightarrow> error + 'p"
  find_elements :: "'p \<Rightarrow> string \<Rightarrow> error + node list"
  driver_quit :: "error + unit"

text \<open>
  \<^verbatim>\<open>
  def scroll_to_load_more(self):
      try:
          last_height = self.driver.execute_script("return document.body.scrollHeight")
          self.driver.execute_script("window.scrollTo(0, document.body.scrollHeight);")
          time.sleep(3)
          new_height = self.driver.execute_script("return document.body.scrollHeight")
          return new_height > last_height
      except Exception as e:
          return False
  \<close>
\<close>

definition scroll_to_load_more :: "'p browser \<Rightarrow> 'p \<Rightarrow> bool \<times> 'p" where
  "scroll_to_load_more b p =
     (case scroll_height b p of
        Inl e \<Rightarrow> (False, p)
      | Inr last_height \<Rightarrow>
          (case scroll_to_bottom b p of
             Inl e \<Rightarrow> (False, p)
           | Inr p' \<Rightarrow>
               (case scroll_height b p' of
                  Inl e \<Rightarrow> (False, p')
                | Inr new_height \<Rightarrow> (new_height > last_height, p'))))"

text \<open>
  \<^verbatim>\<open>
  scroll_attempts = 0
  max_scrolls = 3
  while scroll_attempts < max_scrolls:
      if not self.scroll_to_load_more():
          break
      scroll_attempts += 1
  \<close>
  The loop returns the page state, the counter, and the answers of the calls of
  \<^verbatim>\<open>scroll_to_load_more\<close> it made, one entry for each call.
\<close>

definition max_scrolls :: nat where
  "max_scrolls = 3"

function scroll_loop :: "'p browser \<Rightarrow> 'p \<Rightarrow> nat \<Rightarrow> bool list \<Rightarrow> 'p \<times> nat \<times> bool list" where
  "scroll_loop b p scroll_attempts calls =
     (if scroll_attempts < max_scrolls
      then (case scroll_to_load_more b p of
              (grew, p') \<Rightarrow>
                if \<not> grew then (p', scroll_attempts, calls @ [grew])
                else scroll_loop b p' (scroll_attempts + 1) (calls @ [grew]))
      else (p, scroll_attempts, calls))"
  by pat_completeness auto
termination
  by (relation "measure (\<lambda>(b, p, scroll_attempts, calls). max_scrolls - scroll_attempts)") auto

declare scroll_loop.simps [simp del]

section \<open>DegradedTextExtractor: \<^verbatim>\<open>extract_from_page_source\<close>\<close>

text \<open>
  \<^verbatim>\<open>(?:car\s*cover|seat\s*cover|body\s*cover)\<close> and the title pattern's four-way
  alternation, under \<^verbatim>\<open>re.IGNORECASE\<close>; \<^verbatim>\<open>[^<\n]\<close> and \<^verbatim>\<open>[^<>]\<close>.
\<close>

definition cover_kw :: "string \<Rightarrow> regex" where
  "cover_kw w = Seq (lit_i w) (Seq (Star is_space) (lit_i ''cover''))"

definition not_lt_nl :: "pychar \<Rightarrow> bool" where
  "not_lt_nl c \<longleftrightarrow> c \<noteq> 60 \<and> c \<noteq> 10"

definition not_tag :: "pychar \<Rightarrow> bool" where
  "not_tag c \<longleftrightarrow> c \<noteq> 60 \<and> c \<noteq> 62"

definition digit_or_comma :: "pychar \<Rightarrow> bool" where
  "digit_or_comma c \<longleftrightarrow> is_digit c \<or> c = 44"

text \<open>
  \<^verbatim>\<open>price_pattern = r'\u20b9\s*[\d,]+(?:\s*[^<\n]*(?:car\s*cover|seat\s*cover|body\s*cover)[^<\n]*)?'\<close>
  (the source has the rupee sign itself where \<^verbatim>\<open>\u20b9\<close> stands here).
\<close>

definition price_pattern :: regex where
  "price_pattern =
     Seq (Cls (\<lambda>c. c = rupee)) (Seq (Star is_space) (Seq (Plus digit_or_comma)
       (Opt (Seq (Star is_space) (Seq (Star not_lt_nl)
          (Seq (Alt (cover_kw ''car'') (Alt (cover_kw ''seat'') (cover_kw ''body'')))
               (Star not_lt_nl)))))))"

text \<open>
  \<^verbatim>\<open>r'(?:car\s*cover|seat\s*cover|body\s*cover|wheel\s*cover)[^<>]*'\<close>
\<close>

definition title_pattern :: regex where
  "title_pattern =
     Seq (Alt (cover_kw ''car'') (Alt (cover_kw ''seat'') (Alt (cover_kw ''body'')
            (cover_kw ''wheel''))))
         (Star not_tag)"

text \<open>
  \<^verbatim>\<open>
  for match in matches:
      context_start = max(0, match.start() - 200)
      context_end = min(len(page_source), match.end() + 200)
      context = page_source[context_start:context_end]
      title_match = re.search(title_pattern, context, re.IGNORECASE)
      if title_match:
          listing = {'title': title_match.group().strip(),
                     'price': self.extract_price(match.group()),
                     'location': 'N/A', 'date': 'N/A', 'url': 'N/A'}
          listings.append(listing)
  \<close>
  \<^verbatim>\<open>match.start() - 200\<close> is computed on Python's integers and may be negative.  No
  operation of the body raises on a \<^verbatim>\<open>str\<close>, so the handler around it is not entered.
\<close>

fun degraded_loop :: "pystr \<Rightarrow> (nat \<times> nat) list \<Rightarrow> listing list \<Rightarrow> listing list" where
  "degraded_loop page_source [] listings = listings"
| "degraded_loop page_source ((m_start, m_end) # matches) listings =
     (let context_start = nat (max 0 (int m_start - 200));
          context_end = min (length page_source) (m_end + 200);
          context = slice page_source context_start context_end
      in case re_search title_pattern context of
           None \<Rightarrow> degraded_loop page_source matches listings
         | Some (i, j) \<Rightarrow>
             degraded_loop page_source matches
               (listings @
                 [[(''title'', Some (strip (slice context i j))),
                   (''price'', extract_price (Some (slice page_source m_start m_end))),
                   (''location'', Some N_A), (''date'', Some N_A), (''url'', Some N_A)]]))"

definition extract_from_page_source :: "pystr \<Rightarrow> listing list" where
  "extract_from_page_source src = degraded_loop src (finditer price_pattern src) []"

section \<open>RelevanceClassifier: \<^verbatim>\<open>is_car_cover_listing\<close>\<close>

text \<open>
  \<^verbatim>\<open>keyword in title\<close> for strings: the keyword occurs in the title as a contiguous run.
\<close>

fun is_substring :: "pystr \<Rightarrow> pystr \<Rightarrow> bool" where
  "is_substring k [] \<longleftrightarrow> k = []"
| "is_substring k (c # cs) \<longleftrightarrow> take (length k) (c # cs) = k \<or> is_substring k cs"

definition car_cover_keywords :: "pystr list" where
  "car_cover_keywords =
     map cps [''car cover'', ''body cover'', ''seat cover'', ''wheel cover'', ''brake cover'',
              ''car mat'']"

definition exclude_keywords :: "pystr list" where
  "exclude_keywords =
     map cps [''bhk'', ''flat'', ''apartment'', ''parking'', ''rent'', ''sale'', ''sqft'',
              ''bathroom'', ''bedroom'']"

text \<open>
  \<^verbatim>\<open>
  title = listing_data.get('title', '').lower()
  has_car_cover = any(keyword in title for keyword in car_cover_keywords)
  has_property = any(keyword in title for keyword in exclude_keywords)
  return has_car_cover and not has_property
  \<close>
  \<^verbatim>\<open>str.lower\<close> is the interpreter's Unicode lower-casing; the classifier takes it as the
  argument \<open>lower\<close>.  On a text of ASCII characters it is \<open>ascii_lower\<close>, which
  \<open>lowers_ascii\<close> says of \<open>lower\<close>.  A title that is \<^verbatim>\<open>None\<close> has no method \<^verbatim>\<open>lower\<close>.
\<close>

definition ascii_lower :: "pystr \<Rightarrow> pystr" where
  "ascii_lower s = map (\<lambda>c. if 65 \<le> c \<and> c \<le> 90 then c + 32 else c) s"

definition lowers_ascii :: "(pystr \<Rightarrow> pystr) \<Rightarrow> bool" where
  "lowers_ascii lower \<longleftrightarrow> (\<forall>s. (\<forall>c \<in> set s. c < 128) \<longrightarrow> lower s = ascii_lower s)"

definition is_car_cover_listing :: "(pystr \<Rightarrow> pystr) \<Rightarrow> listing \<Rightarrow> error + bool" where
  "is_car_cover_listing lower listing_data =
     (case dict_get listing_data ''title'' (Some []) of
        None \<Rightarrow> Inl AttributeError
      | Some t \<Rightarrow>
          let title = lower t;
              has_car_cover = list_ex (\<lambda>keyword. is_substring keyword title) car_cover_keywords;
              has_property = list_ex (\<lambda>keyword. is_substring keyword title) exclude_keywords
          in Inr (has_car_cover \<and> \<not> has_property))"

section \<open>ScrapeOrchestrator: \<^verbatim>\<open>scrape_listings\<close>\<close>

text \<open>
  The loop over the located elements:
  \<^verbatim>\<open>
  for i, element in enumerate(listing_elements):
      try:
          listing_data = self.extract_listing_data(element)
          if listing_data and self.is_car_cover_listing(listing_data):
              all_listings.append(listing_data)
      except Exception as e:
          continue
  \<close>
\<close>

fun listing_loop :: "(pystr \<Rightarrow> pystr) \<Rightarrow> node list \<Rightarrow> listing list \<Rightarrow> listing list" where
  "listing_loop lower [] all_listings = all_listings"
| "listing_loop lower (element # elements) all_listings =
     (case extract_listing_data element of
        None \<Rightarrow> listing_loop lower elements all_listings
      | Some listing_data \<Rightarrow>
          if listing_data = [] then listing_loop lower elements all_listings
          else (case is_car_cover_listing lower listing_data of
                  Inl e \<Rightarrow> listing_loop lower elements all_listings
                | Inr relevant \<Rightarrow>
                    if relevant then listing_loop lower elements (all_listings @ [listing_data])
                    else listing_loop lower elements all_listings))"

text \<open>
  The body of the \<^verbatim>\<open>try\<close> of \<^verbatim>\<open>scrape_listings\<close> ends in one of three ways: the
  \<^verbatim>\<open>return listings\<close> of the degraded branch, an exception, or its last statement.  With
  the way it ends comes the value of \<^verbatim>\<open>all_listings\<close> at that moment.  The candidate
  selectors are not empty, so \<^verbatim>\<open>not listing_selector\<close> holds exactly for \<^verbatim>\<open>None\<close>.
\<close>

datatype flow = Return "listing list" | Raised error | Completed

definition session :: "(pystr \<Rightarrow> pystr) \<Rightarrow> 'p browser \<Rightarrow> flow \<times> listing list" where
  "session lower b =
     (case driver_get b of
        Inl e \<Rightarrow> (Raised e, [])
      | Inr p \<Rightarrow>
          (case wait_for_listings (wait_until b p) of
             None \<Rightarrow>
               (case driver_page_source b p of
                  Inl e \<Rightarrow> (Raised e, [])
                | Inr src \<Rightarrow>
                    (case write_file b src of
                       Inl e \<Rightarrow> (Raised e, [])
                     | Inr _ \<Rightarrow> (Return (extract_from_page_source src), [])))
           | Some listing_selector \<Rightarrow>
               (case scroll_loop b p 0 [] of
                  (p', scroll_attempts, calls) \<Rightarrow>
                    (case find_elements b p' listing_selector of
                       Inl e \<Rightarrow> (Raised e, [])
                     | Inr listing_elements \<Rightarrow>
                         (Completed, listing_loop lower listing_elements [])))))"

text \<open>
  \<^verbatim>\<open>
  def scrape_listings(self):
      if not self.setup_driver():
          return []
      all_listings = []
      try:
          ...
      except Exception as e:
          logger.error(f"Error scraping listings: {e}")
      finally:
          if self.driver:
              self.driver.quit()
      return all_listings
  \<close>
  \<open>Inl e\<close> is an exception that leaves \<^verbatim>\<open>scrape_listings\<close>.  The \<^verbatim>\<open>finally\<close> block runs on
  each of the three ways out of the \<^verbatim>\<open>try\<close>; an exception raised in it replaces the
  pending return.
\<close>

definition scrape_listings :: "(pystr \<Rightarrow> pystr) \<Rightarrow> 'p browser \<Rightarrow> error + listing list" where
  "scrape_listings lower b =
     (if \<not> setup_driver b then Inr []
      else
        (case session lower b of
           (way, all_listings) \<Rightarrow>
             (case driver_quit b of
                Inl e \<Rightarrow> Inl e
              | Inr _ \<Rightarrow>
                  (case way of
                     Return listings \<Rightarrow> Inr listings
                   | Raised e \<Rightarrow> Inr all_listings
                   | Completed \<Rightarrow> Inr all_listings))))"

section \<open>The spec's vocabulary\<close>

text \<open>
  The spec's words for the classifier: a title contains a keyword when the keyword occurs
  in it as a substring; \<open>hasTarget\<close> and \<open>hasExclusion\<close> are taken over the two keyword
  lists.
\<close>

definition occurs_in :: "pystr \<Rightarrow> pystr \<Rightarrow> bool" where
  "occurs_in k s \<longleftrightarrow> (\<exists>pre post. s = pre @ k @ post)"

definition has_target :: "pystr \<Rightarrow> bool" where
  "has_target title \<longleftrightarrow> (\<exists>k \<in> set car_cover_keywords. occurs_in k title)"

definition has_exclusion :: "pystr \<Rightarrow> bool" where
  "has_exclusion title \<longleftrightarrow> (\<exists>k \<in> set exclude_keywords. occurs_in k title)"

text \<open>
  The spec's words for the field extractor.  \<open>matched_texts\<close> are the trimmed texts of the
  selectors of a chain that match, in the chain's order; a chain's field is the first of
  them that is not empty, the price the first non-null normalized one, and \<^verbatim>\<open>N/A\<close> when
  there is none.  A fault is an exception other than \<^verbatim>\<open>NoSuchElementException\<close>, raised
  by the lookup of a selector or by reading the element found.
\<close>

definition matched_texts :: "node \<Rightarrow> string list \<Rightarrow> pystr list" where
  "matched_texts n selectors =
     List.map_filter
       (\<lambda>selector. case n selector of
          Inl e \<Rightarrow> None
        | Inr el \<Rightarrow> (case elem_text el of Inl e \<Rightarrow> None | Inr t \<Rightarrow> Some (strip t)))
       selectors"

definition first_text :: "node \<Rightarrow> string list \<Rightarrow> pystr" where
  "first_text n selectors =
     (case filter (\<lambda>t. t \<noteq> []) (matched_texts n selectors) of [] \<Rightarrow> N_A | t # _ \<Rightarrow> t)"

definition first_price :: "node \<Rightarrow> string list \<Rightarrow> pystr" where
  "first_price n selectors =
     (case List.map_filter (\<lambda>t. extract_price (Some t)) (matched_texts n selectors) of
        [] \<Rightarrow> N_A | p # _ \<Rightarrow> p)"

definition text_fault :: "node \<Rightarrow> string \<Rightarrow> bool" where
  "text_fault n selector \<longleftrightarrow>
     (case n selector of
        Inl e \<Rightarrow> e \<noteq> NoSuchElementException
      | Inr el \<Rightarrow> (case elem_text el of Inl e \<Rightarrow> e \<noteq> NoSuchElementException | Inr t \<Rightarrow> False))"

definition href_fault :: "node \<Rightarrow> string \<Rightarrow> bool" where
  "href_fault n selector \<longleftrightarrow>
     (case n selector of
        Inl e \<Rightarrow> e \<noteq> NoSuchElementException
      | Inr el \<Rightarrow> (case elem_href el of Inl e \<Rightarrow> e \<noteq> NoSuchElementException | Inr t \<Rightarrow> False))"

definition text_selectors :: "string list" where
  "text_selectors = title_selectors @ price_selectors @ location_selectors @ date_selectors"

text \<open>
  The spec's words for the batch: a located node contributes its record when the field
  extractor returns one and the classifier accepts it.
\<close>

definition relevant_listing :: "(pystr \<Rightarrow> pystr) \<Rightarrow> node \<Rightarrow> listing option" where
  "relevant_listing lower element =
     (case extract_listing_data element of
        None \<Rightarrow> None
      | Some listing_data \<Rightarrow>
          if is_car_cover_listing lower listing_data = Inr True then Some listing_data else None)"

text \<open>
  The spec's words for the degraded extractor.  The context of a price match is the
  markup from 200 characters before its start to 200 characters after its end, cut off
  at the ends of the markup.  A price match yields a listing when the title pattern is
  found in its context.  \<open>spans_ordered\<close> says of a list of matches that each is not
  empty and begins no earlier than the one before it ends; \<open>span_ok\<close> that a pair of
  positions is a match of the pattern in the text that begins at \<open>pos\<close>.
\<close>

definition context_window :: "pystr \<Rightarrow> nat \<times> nat \<Rightarrow> pystr" where
  "context_window markup m = drop (fst m - 200) (take (snd m + 200) markup)"

definition degraded_listing :: "pystr \<Rightarrow> nat \<times> nat \<Rightarrow> listing option" where
  "degraded_listing markup m =
     (case re_search title_pattern (context_window markup m) of
        None \<Rightarrow> None
      | Some (a, b) \<Rightarrow>
          Some [(''title'', Some (strip (slice (context_window markup m) a b))),
                (''price'', extract_price (Some (slice markup (fst m) (snd m)))),
                (''location'', Some N_A), (''date'', Some N_A), (''url'', Some N_A)])"

fun spans_ordered :: "nat \<Rightarrow> (nat \<times> nat) list \<Rightarrow> bool" where
  "spans_ordered lo [] \<longleftrightarrow> True"
| "spans_ordered lo ((i, j) # ms) \<longleftrightarrow> lo \<le> i \<and> i < j \<and> spans_ordered j ms"

definition span_ok :: "regex \<Rightarrow> nat \<Rightarrow> pystr \<Rightarrow> nat \<times> nat \<Rightarrow> bool" where
  "span_ok r pos s m \<longleftrightarrow>
     pos \<le> fst m \<and> fst m < snd m \<and> snd m \<le> pos + length s \<and>
     re_match r (drop (fst m - pos) s) = Some (drop (snd m - pos) s)"

text \<open>
  The spec's words for a value of a listing: a text that is not empty and is trimmed.
\<close>

definition well_formed :: "pystr \<Rightarrow> bool" where
  "well_formed v \<longleftrightarrow> v \<noteq> [] \<and> strip v = v"

text \<open>
  The spec's words for the scroll loop: a scroll of the page in state \<open>p\<close> produces
  page-height growth when the height read before the scroll, the scroll and the height
  read after it all succeed and the second height is greater than the first; \<open>scrolled\<close>
  is the state the scroll leaves.
\<close>

definition grows :: "'p browser \<Rightarrow> 'p \<Rightarrow> bool" where
  "grows b p \<longleftrightarrow>
     (\<exists>last_height q new_height.
        scroll_height b p = Inr last_height \<and> scroll_to_bottom b p = Inr q \<and>
        scroll_height b q = Inr new_height \<and> last_height < new_height)"

definition scrolled :: "'p browser \<Rightarrow> 'p \<Rightarrow> 'p" where
  "scrolled b p = (case scroll_to_bottom b p of Inl e \<Rightarrow> p | Inr q \<Rightarrow> q)"

section \<open>Sample pages\<close>

text \<open>
  A page on which only the second container selector is present, and a browser whose
  page keeps the height 1080 however often it is scrolled (its page state counts the
  scrolls).
\<close>

definition page1 :: "string \<Rightarrow> error + unit" where
  "page1 s = (if s = ''.EIR5N'' then Inr () else Inl TimeoutException)"

definition still_page :: "nat browser" where
  "still_page = \<lparr> setup_driver = True, driver_get = Inr 0, wait_until = (\<lambda>p s. Inr ()),
     driver_page_source = (\<lambda>p. Inr []), write_file = (\<lambda>s. Inr ()),
     scroll_height = (\<lambda>p. Inr 1080), scroll_to_bottom = (\<lambda>p. Inr (p + 1)),
     find_elements = (\<lambda>p s. Inr []), driver_quit = Inr () \<rparr>"

text \<open>
  A browser whose page is 1000 high when loaded, 1500 after one scroll and 2000 after
  two or more.
\<close>

definition growing_page :: "nat browser" where
  "growing_page =
     still_page \<lparr> scroll_height := (\<lambda>p. Inr (if p < 2 then 1000 + 500 * int p else 2000)) \<rparr>"

text \<open>
  A listing node with a heading, a price and a link, and a node every access to which
  raises.
\<close>

definition sample_node :: node where
  "sample_node selector =
     (if selector = ''h2''
        then Inr \<lparr>elem_text = Inr (cps '' Car body cover ''), elem_href = Inr None\<rparr>
      else if selector = ''.rui-ANJaG''
        then Inr \<lparr>elem_text = Inr (rupee # cps '' 1,250''), elem_href = Inr None\<rparr>
      else if selector = ''a[href*='/item/']''
        then Inr \<lparr>elem_text = Inr [], elem_href = Inr (Some (cps ''https://www.olx.in/item/1''))\<rparr>
      else Inl NoSuchElementException)"

definition stale_node :: node where
  "stale_node selector = Inl WebDriverException"

text \<open>
  The still page with a \<^verbatim>\<open>driver.quit()\<close> that raises, and with a page load that raises.
\<close>

definition quit_fails :: "nat browser" where
  "quit_fails = still_page \<lparr> driver_quit := Inl WebDriverException \<rparr>"

definition load_fails :: "nat browser" where
  "load_fails = still_page \<lparr> driver_get := Inl WebDriverException \<rparr>"

text \<open>A markup with one priced seat cover.\<close>

definition seat_markup :: pystr where
  "seat_markup = cps ''<b>'' @ rupee # cps '' 50 seat cover</b>''"

text \<open>
  The still page with a height that cannot be read and two located nodes, and with
  waits that raise a driver exception and the seat cover markup as its source.
\<close>

definition scroll_fails :: "nat browser" where
  "scroll_fails = still_page \<lparr> scroll_height := (\<lambda>p. Inl WebDriverException),
     find_elements := (\<lambda>p s. Inr [stale_node, sample_node]) \<rparr>"

definition wait_fails :: "nat browser" where
  "wait_fails = still_page \<lparr> wait_until := (\<lambda>p s. Inl WebDriverException),
     driver_page_source := (\<lambda>p. Inr seat_markup) \<rparr>"

text \<open>The span of the spec's scenario.\<close>

definition sedan_span :: pystr where
  "sedan_span = rupee # cps '' 899 Waterproof Car Cover for Sedan''"

text \<open>
  Three markups: the span of the scenario after a heading that names a seat cover; the
  span alone in a \<^verbatim>\<open>div\<close>; and a price text without a digit next to a car cover.
\<close>

definition seat_sedan_markup :: pystr where
  "seat_sedan_markup = cps ''<h2>Seat Cover</h2><p>'' @ sedan_span @ cps ''</p>''"

definition div_sedan_markup :: pystr where
  "div_sedan_markup = cps ''<div>'' @ sedan_span @ cps ''</div>''"

definition swift_markup :: pystr where
  "swift_markup = cps ''<p>Price in '' @ rupee # cps '', car cover for Swift</p>''"

section \<open>Facts about the matcher\<close>

lemma is_digit_low: "c < 1632 \<Longrightarrow> is_digit c \<longleftrightarrow> 48 \<le> c \<and> c \<le> 57"
  unfolding is_digit_def digit_zeros_def by (simp only: list_ex_Cons_iff list_ex_Nil_iff) auto

lemma is_digit_rupee: "\<not> is_digit 8377"
  unfolding is_digit_def digit_zeros_def by simp

text \<open>The equations that evaluate the scraper's text functions on a given text.\<close>

lemmas eval_defs = extract_price_def strip_def lstrip_def rstrip_def re_sub_def findall_def
  finditer_def re_match_def Plus_def slice_def is_price_junk_def is_space_def is_digit_low
  is_digit_rupee rupee_def cps_def Let_def extract_from_page_source_def price_pattern_def
  title_pattern_def cover_kw_def lit_i_def icase_def not_lt_nl_def not_tag_def digit_or_comma_def
  re_search_def N_A_def

lemma ends_Star: "ends (Star P) s \<noteq> [] \<and> hd (ends (Star P) s) = dropWhile P s"
  by (induction s) auto

lemma re_match_Star: "re_match (Star P) s = Some (dropWhile P s)"
  using ends_Star [of P s] by (cases "ends (Star P) s") (auto simp: re_match_def)

lemma re_match_Cls: "re_match (Cls P) s = (case s of [] \<Rightarrow> None | c # cs \<Rightarrow> if P c then Some cs else None)"
  by (cases s) (auto simp: re_match_def)

lemma re_match_Plus:
  "re_match (Plus P) s = (case s of [] \<Rightarrow> None | c # cs \<Rightarrow> if P c then Some (dropWhile P cs) else None)"
  using ends_Star [of P "tl s"] by (cases s; cases "ends (Star P) (tl s)") (auto simp: re_match_def Plus_def)

lemma sub_Cls_gen:
  "length pre = pos \<Longrightarrow> q \<le> pos \<Longrightarrow>
   sub_pieces (finditer_from (Cls P) pos t) [] q (pre @ t) = drop q pre @ filter (\<lambda>c. \<not> P c) t"
proof (induction t arbitrary: pre pos q)
  case Nil
  then show ?case by simp
next
  case (Cons c cs)
  show ?case
  proof (cases "P c")
    case True
    have "sub_pieces (finditer_from (Cls P) (pos + 1) cs) [] (pos + 1) ((pre @ [c]) @ cs)
          = drop (pos + 1) (pre @ [c]) @ filter (\<lambda>c. \<not> P c) cs"
      using Cons.prems by (intro Cons.IH) auto
    with True Cons.prems show ?thesis by (simp add: re_match_Cls slice_def)
  next
    case False
    have "sub_pieces (finditer_from (Cls P) (pos + 1) cs) [] q ((pre @ [c]) @ cs)
          = drop q (pre @ [c]) @ filter (\<lambda>c. \<not> P c) cs"
      using Cons.prems by (intro Cons.IH) auto
    with False Cons.prems show ?thesis by (simp add: re_match_Cls)
  qed
qed

lemma re_sub_Cls: "re_sub (Cls P) [] s = filter (\<lambda>c. \<not> P c) s"
  using sub_Cls_gen [of "[]" 0 0 P s] by (simp add: re_sub_def finditer_def)

lemma digit_not_junk: "is_digit c \<Longrightarrow> \<not> is_price_junk c"
  unfolding is_digit_def digit_zeros_def is_price_junk_def is_space_def rupee_def
  by (elim disjE conjE | simp only: list_ex_Cons_iff list_ex_Nil_iff)+ auto

lemma take_takeWhile_length:
  "take (Suc (length cs) - length (dropWhile P cs)) (c # cs) = c # takeWhile P cs"
proof -
  have "length cs - length (dropWhile P cs) = length (takeWhile P cs)"
    by (metis add_diff_cancel_right' length_append takeWhile_dropWhile_id)
  moreover have "length (dropWhile P cs) \<le> length cs"
    by (rule length_dropWhile_le)
  ultimately have "Suc (length cs) - length (dropWhile P cs) = Suc (length (takeWhile P cs))"
    by arith
  moreover have "take (length (takeWhile P cs)) cs = takeWhile P cs"
    by (metis append_eq_conv_conj takeWhile_dropWhile_id)
  ultimately show ?thesis by simp
qed

lemma findall_digits_gen:
  "length pre = pos \<Longrightarrow>
   map (\<lambda>(i, j). slice (pre @ t) i j) (finditer_from (Plus is_digit) pos t) = max_digit_runs t"
proof (induction t arbitrary: pre pos rule: max_digit_runs.induct)
  case 1
  then show ?case by simp
next
  case (2 c cs)
  show ?case
  proof (cases "is_digit c")
    case True
    let ?rest = "dropWhile is_digit cs"
    let ?k = "Suc (length cs) - length ?rest"
    have le: "length ?rest \<le> length cs" by (rule length_dropWhile_le)
    have split: "c # cs = (c # takeWhile is_digit cs) @ ?rest" by simp
    have "map (\<lambda>(i, j). slice ((pre @ c # takeWhile is_digit cs) @ ?rest) i j)
            (finditer_from (Plus is_digit) (pos + ?k) ?rest) = max_digit_runs ?rest"
    proof (rule "2.IH"(1) [OF True])
      have "length (c # takeWhile is_digit cs) = ?k"
        using take_takeWhile_length [of cs is_digit c] le
        by (metis length_take min.absorb2 length_Cons diff_le_self)
      then show "length (pre @ c # takeWhile is_digit cs) = pos + ?k"
        using "2.prems" by simp
    qed
    moreover have "slice (pre @ c # cs) pos (pos + ?k) = c # takeWhile is_digit cs"
      using "2.prems" take_takeWhile_length [of cs is_digit c] by (simp add: slice_def)
    ultimately show ?thesis
      using True le by (simp add: re_match_Plus)
  next
    case False
    have "map (\<lambda>(i, j). slice ((pre @ [c]) @ cs) i j)
            (finditer_from (Plus is_digit) (pos + 1) cs) = max_digit_runs cs"
      using "2.prems" by (intro "2.IH"(2) [OF False]) simp
    with False show ?thesis by (simp add: re_match_Plus)
  qed
qed

lemma findall_digits: "findall (Plus is_digit) s = max_digit_runs s"
  using findall_digits_gen [of "[]" 0 s] by (simp add: findall_def finditer_def)

lemma filter_take_drop_While: "filter P xs = takeWhile P xs @ filter P (dropWhile P xs)"
  by (induction xs) auto

lemma concat_max_digit_runs: "concat (max_digit_runs s) = filter is_digit s"
proof (induction s rule: max_digit_runs.induct)
  case 1
  then show ?case by simp
next
  case (2 c cs)
  then show ?case
    using filter_take_drop_While [of is_digit cs] by simp
qed

lemma max_digit_runs_Nil: "max_digit_runs s = [] \<longleftrightarrow> (\<forall>c \<in> set s. \<not> is_digit c)"
proof (induction s rule: max_digit_runs.induct)
  case 1
  then show ?case by simp
next
  case (2 c cs)
  then show ?case by auto
qed

lemma filter_dropWhile_junk:
  "(\<And>c. P c \<Longrightarrow> \<not> Q c) \<Longrightarrow> filter Q (dropWhile P s) = filter Q s"
  by (induction s) auto

lemma cleaned_strip: "cleaned (strip t) = cleaned t"
proof -
  have sp: "\<And>c. is_space c \<Longrightarrow> \<not> \<not> is_price_junk c"
    by (simp add: is_price_junk_def)
  have "cleaned (rstrip u) = cleaned u" for u
  proof -
    have "filter (\<lambda>c. \<not> is_price_junk c) (rev (dropWhile is_space (rev u)))
          = rev (filter (\<lambda>c. \<not> is_price_junk c) (dropWhile is_space (rev u)))"
      by (simp add: rev_filter)
    also have "\<dots> = rev (filter (\<lambda>c. \<not> is_price_junk c) (rev u))"
      using filter_dropWhile_junk [of is_space "\<lambda>c. \<not> is_price_junk c" "rev u"] sp by simp
    also have "\<dots> = filter (\<lambda>c. \<not> is_price_junk c) u"
      by (simp add: rev_filter)
    finally show ?thesis by (simp add: cleaned_def rstrip_def)
  qed
  moreover have "cleaned (lstrip u) = cleaned u" for u
    using filter_dropWhile_junk [of is_space "\<lambda>c. \<not> is_price_junk c" u] sp
    by (simp add: cleaned_def lstrip_def)
  ultimately show ?thesis by (simp add: strip_def)
qed

lemma extract_price_Some:
  "t \<noteq> [] \<Longrightarrow> extract_price (Some t) =
     (if max_digit_runs (cleaned t) = [] then None else Some (concat (max_digit_runs (cleaned t))))"
  using cleaned_strip [of t]
  by (simp add: extract_price_def re_sub_Cls findall_digits cleaned_def)

lemma filter_digit_cleaned: "filter is_digit (cleaned t) = filter is_digit t"
  using digit_not_junk by (auto simp: cleaned_def intro: filter_cong)

lemma extract_price_digits:
  "extract_price (Some t) =
     (if \<exists>c \<in> set t. is_digit c then Some (filter is_digit t) else None)"
proof (cases "t = []")
  case True
  then show ?thesis by (simp add: extract_price_def)
next
  case False
  have "(\<forall>c \<in> set (cleaned t). \<not> is_digit c) \<longleftrightarrow> (\<forall>c \<in> set t. \<not> is_digit c)"
    using digit_not_junk by (auto simp: cleaned_def)
  then show ?thesis
    using False by (simp add: extract_price_Some max_digit_runs_Nil concat_max_digit_runs
        filter_digit_cleaned)
qed

lemma ends_suffix: "rest \<in> set (ends r s) \<Longrightarrow> \<exists>p. s = p @ rest"
proof (induction r s arbitrary: rest rule: ends.induct)
  case (1 s)
  then show ?case by simp
next
  case (2 P)
  then show ?case by simp
next
  case (3 P c cs)
  then have "c # cs = [c] @ rest" by (simp split: if_splits)
  then show ?case by blast
next
  case (4 a b s)
  from "4.prems" obtain x where x: "x \<in> set (ends a s)" and r: "rest \<in> set (ends b x)"
    by auto
  from "4.IH"(1) [OF x] obtain p where "s = p @ x" by blast
  moreover from "4.IH"(2) [OF x r] obtain q where "x = q @ rest" by blast
  ultimately have "s = (p @ q) @ rest" by simp
  then show ?case by blast
next
  case (5 a b s)
  then show ?case by auto
next
  case (6 a s)
  then show ?case by auto
next
  case (7 P)
  then show ?case by simp
next
  case (8 P c cs)
  show ?case
  proof (cases "rest = c # cs")
    case True
    then show ?thesis by simp
  next
    case False
    with "8.prems" have pc: "P c" and "rest \<in> set (ends (Star P) cs)"
      by (auto split: if_splits)
    from "8.IH" [OF this] obtain p where "cs = p @ rest" by blast
    then have "c # cs = (c # p) @ rest" by simp
    then show ?thesis by blast
  qed
qed

lemma re_match_suffix: "re_match r s = Some rest \<Longrightarrow> \<exists>p. s = p @ rest"
proof -
  assume "re_match r s = Some rest"
  then have "rest \<in> set (ends r s)"
    by (cases "ends r s") (auto simp: re_match_def)
  then show ?thesis by (rule ends_suffix)
qed

lemma re_match_drop:
  "re_match r s = Some rest \<Longrightarrow> length rest \<le> length s \<and> rest = drop (length s - length rest) s"
proof -
  assume "re_match r s = Some rest"
  then obtain p where "s = p @ rest" using re_match_suffix by blast
  then show ?thesis by simp
qed

lemma spans_ordered_mono: "spans_ordered lo ms \<Longrightarrow> lo' \<le> lo \<Longrightarrow> spans_ordered lo' ms"
  by (cases ms) auto

lemma span_ok_Cons:
  assumes "span_ok r (pos + 1) cs m"
  shows "span_ok r pos (c # cs) m"
proof -
  from assms have le: "pos + 1 \<le> fst m" "fst m < snd m" "snd m \<le> pos + 1 + length cs"
    and m: "re_match r (drop (fst m - (pos + 1)) cs) = Some (drop (snd m - (pos + 1)) cs)"
    by (simp_all add: span_ok_def)
  from le have "fst m - pos = Suc (fst m - (pos + 1))" "snd m - pos = Suc (snd m - (pos + 1))"
    by arith+
  with le m show ?thesis by (simp add: span_ok_def)
qed

lemma span_ok_shift:
  assumes "span_ok r (pos + k) (drop k s) m" "k \<le> length s"
  shows "span_ok r pos s m"
proof -
  from assms have le: "pos + k \<le> fst m" "fst m < snd m" "snd m \<le> pos + k + (length s - k)"
    by (simp_all add: span_ok_def)
  from assms(1) have m: "re_match r (drop (fst m - (pos + k)) (drop k s))
              = Some (drop (snd m - (pos + k)) (drop k s))"
    unfolding span_ok_def by blast
  from le have e: "fst m - (pos + k) + k = fst m - pos" "snd m - (pos + k) + k = snd m - pos"
    by arith+
  have "drop (fst m - (pos + k)) (drop k s) = drop (fst m - pos) s"
    "drop (snd m - (pos + k)) (drop k s) = drop (snd m - pos) s"
    by (simp_all only: drop_drop e)
  with m have "re_match r (drop (fst m - pos) s) = Some (drop (snd m - pos) s)"
    by simp
  moreover from le assms(2) have "pos \<le> fst m" "snd m \<le> pos + length s"
    by arith+
  ultimately show ?thesis using le(2) by (simp add: span_ok_def)
qed

lemma finditer_from_spans:
  "spans_ordered pos (finditer_from r pos s) \<and>
   (\<forall>m \<in> set (finditer_from r pos s). span_ok r pos s m)"
proof (induction r pos s rule: finditer_from.induct)
  case (1 r pos)
  then show ?case by simp
next
  case (2 r pos c cs)
  let ?s = "c # cs"
  have skip: ?case if eq: "finditer_from r pos ?s = finditer_from r (pos + 1) cs"
    and ih: "spans_ordered (pos + 1) (finditer_from r (pos + 1) cs) \<and>
             (\<forall>m \<in> set (finditer_from r (pos + 1) cs). span_ok r (pos + 1) cs m)"
  proof -
    from ih have "spans_ordered pos (finditer_from r (pos + 1) cs)"
      by (auto intro: spans_ordered_mono)
    moreover from ih have "\<forall>m \<in> set (finditer_from r (pos + 1) cs). span_ok r pos ?s m"
      by (auto intro: span_ok_Cons)
    ultimately show ?thesis using eq by simp
  qed
  show ?case
  proof (cases "re_match r ?s")
    case None
    then have "finditer_from r pos ?s = finditer_from r (pos + 1) cs" by simp
    then show ?thesis using "2.IH"(1) [OF None] by (rule skip)
  next
    case (Some rest)
    show ?thesis
    proof (cases "length rest < length ?s")
      case False
      with Some have "finditer_from r pos ?s = finditer_from r (pos + 1) cs" by simp
      then show ?thesis using "2.IH"(3) [OF Some False] by (rule skip)
    next
      case True
      let ?k = "length ?s - length rest"
      from re_match_drop [OF Some] have rest: "rest = drop ?k ?s" by simp
      from True have k: "0 < ?k" "?k \<le> length ?s" by simp_all
      have eq: "finditer_from r pos ?s = (pos, pos + ?k) # finditer_from r (pos + ?k) rest"
        using Some True by simp
      from "2.IH"(2) [OF Some True]
      have ih: "spans_ordered (pos + ?k) (finditer_from r (pos + ?k) rest)"
        "\<forall>m \<in> set (finditer_from r (pos + ?k) rest). span_ok r (pos + ?k) rest m"
        by simp_all
      have first: "span_ok r pos ?s (pos, pos + ?k)"
        using Some rest k by (simp add: span_ok_def)
      have "\<forall>m \<in> set (finditer_from r (pos + ?k) rest). span_ok r pos ?s m"
      proof
        fix m assume "m \<in> set (finditer_from r (pos + ?k) rest)"
        with ih(2) have "span_ok r (pos + ?k) (drop ?k ?s) m" using rest by simp
        then show "span_ok r pos ?s m" using k(2) by (rule span_ok_shift)
      qed
      with first ih(1) k
      have both: "spans_ordered pos ((pos, pos + ?k) # finditer_from r (pos + ?k) rest) \<and>
         (\<forall>m \<in> set ((pos, pos + ?k) # finditer_from r (pos + ?k) rest). span_ok r pos ?s m)"
        by simp
      show ?thesis unfolding eq by (rule both)
    qed
  qed
qed

lemma search_from_Some:
  "search_from r pos s = Some (a, b) \<Longrightarrow>
   pos \<le> a \<and> a \<le> b \<and> b \<le> pos + length s \<and>
   re_match r (drop (a - pos) s) = Some (drop (b - pos) s) \<and>
   (\<forall>k < a - pos. re_match r (drop k s) = None)"
proof (induction s arbitrary: pos)
  case Nil
  then show ?case by (auto simp: split: option.splits dest: re_match_drop)
next
  case (Cons c cs)
  show ?case
  proof (cases "re_match r (c # cs)")
    case None
    with Cons.prems have "search_from r (pos + 1) cs = Some (a, b)" by simp
    from Cons.IH [OF this]
    have ih: "pos + 1 \<le> a" "a \<le> b" "b \<le> pos + 1 + length cs"
      "re_match r (drop (a - (pos + 1)) cs) = Some (drop (b - (pos + 1)) cs)"
      "\<forall>k < a - (pos + 1). re_match r (drop k cs) = None"
      by simp_all
    from ih(1,2) have e: "a - pos = Suc (a - (pos + 1))" "b - pos = Suc (b - (pos + 1))"
      by arith+
    have "re_match r (drop k (c # cs)) = None" if "k < a - pos" for k
    proof (cases k)
      case 0
      with None show ?thesis by simp
    next
      case (Suc k')
      with that e have "k' < a - (pos + 1)" by arith
      with ih(5) Suc show ?thesis by simp
    qed
    with ih e show ?thesis by simp
  next
    case (Some rest)
    with Cons.prems have ab: "a = pos" "b = pos + (length (c # cs) - length rest)" by simp_all
    from re_match_drop [OF Some] have "rest = drop (length (c # cs) - length rest) (c # cs)"
      "length rest \<le> length (c # cs)" by simp_all
    with Some ab show ?thesis by simp
  qed
qed

lemma search_from_None:
  "search_from r pos s = None \<Longrightarrow> k \<le> length s \<Longrightarrow> re_match r (drop k s) = None"
proof (induction s arbitrary: pos k)
  case Nil
  then show ?case by (simp split: option.splits)
next
  case (Cons c cs)
  from Cons.prems(1) have n: "re_match r (c # cs) = None" and s: "search_from r (pos + 1) cs = None"
    by (simp_all split: option.splits)
  show ?case
  proof (cases k)
    case 0
    with n show ?thesis by simp
  next
    case (Suc k')
    with Cons.prems(2) have "k' \<le> length cs" by simp
    from Cons.IH [OF s this] Suc show ?thesis by simp
  qed
qed

lemma finditer_from_skip:
  "\<forall>m \<in> set (finditer_from r pos (p @ t)). fst m < pos + length p \<longrightarrow> snd m \<le> pos + length p \<Longrightarrow>
   \<exists>before. finditer_from r pos (p @ t) = before @ finditer_from r (pos + length p) t \<and>
     (\<forall>m \<in> set before. snd m \<le> pos + length p)"
proof (induction "length p" arbitrary: p pos rule: less_induct)
  case less
  show ?case
  proof (cases p)
    case Nil
    then show ?thesis by simp
  next
    case (Cons c cs)
    let ?s = "c # cs @ t"
    have skip: ?thesis if eq: "finditer_from r pos ?s = finditer_from r (pos + 1) (cs @ t)"
    proof -
      have "\<forall>m \<in> set (finditer_from r (pos + 1) (cs @ t)).
          fst m < pos + 1 + length cs \<longrightarrow> snd m \<le> pos + 1 + length cs"
        using less.prems Cons eq by simp
      from less.hyps [OF _ this] Cons obtain before where
        "finditer_from r (pos + 1) (cs @ t) = before @ finditer_from r (pos + 1 + length cs) t"
        "\<forall>m \<in> set before. snd m \<le> pos + 1 + length cs"
        by auto
      with eq Cons show ?thesis by simp
    qed
    show ?thesis
    proof (cases "re_match r ?s")
      case None
      then have "finditer_from r pos ?s = finditer_from r (pos + 1) (cs @ t)" by simp
      then show ?thesis by (rule skip)
    next
      case (Some rest)
      show ?thesis
      proof (cases "length rest < length ?s")
        case False
        with Some have "finditer_from r pos ?s = finditer_from r (pos + 1) (cs @ t)" by simp
        then show ?thesis by (rule skip)
      next
        case True
        define k where "k = length ?s - length rest"
        from re_match_drop [OF Some] have rest: "rest = drop k ?s" by (simp add: k_def)
        from True have k0: "0 < k" by (simp add: k_def)
        have eq: "finditer_from r pos ?s = (pos, pos + k) # finditer_from r (pos + k) rest"
          using Some True by (simp add: k_def)
        with less.prems Cons have "pos + k \<le> pos + length p" by simp
        then have kp: "k \<le> length p" by simp
        have "drop k (p @ t) = drop k p @ t" using kp by simp
        with rest Cons have rest': "rest = drop k p @ t" by simp
        have shorter: "length (drop k p) < length p" using k0 Cons by simp
        have len: "pos + k + length (drop k p) = pos + length p" using kp by simp
        have "\<forall>m \<in> set (finditer_from r (pos + k) rest).
            fst m < pos + length p \<longrightarrow> snd m \<le> pos + length p"
          using less.prems Cons eq by simp
        then have "\<forall>m \<in> set (finditer_from r (pos + k) (drop k p @ t)).
            fst m < pos + k + length (drop k p) \<longrightarrow> snd m \<le> pos + k + length (drop k p)"
          unfolding len rest' .
        from less.hyps [OF shorter this] obtain before where
          b: "finditer_from r (pos + k) (drop k p @ t)
                = before @ finditer_from r (pos + k + length (drop k p)) t"
             "\<forall>m \<in> set before. snd m \<le> pos + k + length (drop k p)"
          by blast
        have pt: "p @ t = c # cs @ t" using Cons by simp
        have "finditer_from r pos (p @ t)
            = (pos, pos + k) # finditer_from r (pos + k) (drop k p @ t)"
          by (simp only: pt eq rest' [symmetric])
        with b(1) kp have "finditer_from r pos (p @ t)
            = ((pos, pos + k) # before) @ finditer_from r (pos + length p) t"
          by simp
        moreover have "\<forall>m \<in> set ((pos, pos + k) # before). snd m \<le> pos + length p"
          using b(2) len kp by simp
        ultimately show ?thesis by blast
      qed
    qed
  qed
qed

lemma search_from_skip:
  "\<forall>k < length w. re_match r (drop k (w @ t)) = None \<Longrightarrow>
   search_from r pos (w @ t) = search_from r (pos + length w) t"
proof (induction w arbitrary: pos)
  case Nil
  then show ?case by simp
next
  case (Cons c w)
  from Cons.prems have "re_match r (drop 0 ((c # w) @ t)) = None" by blast
  then have n: "re_match r (c # w @ t) = None" by simp
  have "\<forall>k < length w. re_match r (drop k (w @ t)) = None"
  proof (intro allI impI)
    fix k assume "k < length w"
    then have "Suc k < length (c # w)" by simp
    with Cons.prems have "re_match r (drop (Suc k) ((c # w) @ t)) = None" by blast
    then show "re_match r (drop k (w @ t)) = None" by simp
  qed
  from Cons.IH [OF this, of "pos + 1"] n show ?case by simp
qed

lemma re_match_Seq_Star:
  "re_match (Seq a (Star P)) s = map_option (dropWhile P) (re_match a s)"
proof (cases "ends a s")
  case Nil
  then show ?thesis by (simp add: re_match_def)
next
  case (Cons x xs)
  obtain y ys where "ends (Star P) x = y # ys" "y = dropWhile P x"
    using ends_Star [of P x] by (cases "ends (Star P) x") auto
  with Cons show ?thesis by (simp add: re_match_def)
qed

lemma strip_append:
  assumes "x \<noteq> []" "\<not> is_space (hd x)" "\<not> is_space (last x)"
  shows "strip (x @ y) = x @ rstrip y"
proof -
  from assms obtain c cs where x: "x = c # cs" by (cases x) auto
  with assms(2) have l: "lstrip (x @ y) = x @ y" by (simp add: lstrip_def)
  have "dropWhile is_space (rev y @ rev x) = dropWhile is_space (rev y) @ rev x"
  proof (cases "\<forall>z \<in> set (rev y). is_space z")
    case True
    from assms(1,3) have "dropWhile is_space (rev x) = rev x"
      by (cases "rev x") (auto simp: last_rev [symmetric] hd_rev)
    moreover from True have "dropWhile is_space (rev y) = []" by simp
    moreover from True have "dropWhile is_space (rev y @ rev x) = dropWhile is_space (rev x)"
      by (intro dropWhile_append2) blast
    ultimately show ?thesis by simp
  next
    case False
    then obtain z where "z \<in> set (rev y)" "\<not> is_space z" by blast
    then show ?thesis by (rule dropWhile_append1)
  qed
  then show ?thesis by (simp add: strip_def l rstrip_def)
qed

lemma finditer_from_match:
  assumes "re_match r s = Some rest" "length rest < length s"
  shows "finditer_from r pos s =
     (pos, pos + (length s - length rest)) # finditer_from r (pos + (length s - length rest)) rest"
proof -
  from assms(2) obtain c cs where "s = c # cs" by (cases s) auto
  with assms show ?thesis by simp
qed

lemma map_filter_append:
  "List.map_filter f (xs @ ys) = List.map_filter f xs @ List.map_filter f ys"
  by (simp add: map_filter_def)

lemma strip_id: "s \<noteq> [] \<Longrightarrow> \<not> is_space (hd s) \<Longrightarrow> \<not> is_space (last s) \<Longrightarrow> strip s = s"
  using strip_append [of s "[]"] by (simp add: rstrip_def)

lemma rstrip_prefix: "v = rstrip v @ rev (takeWhile is_space (rev v))"
proof -
  have "rev (dropWhile is_space (rev v)) @ rev (takeWhile is_space (rev v))
      = rev (takeWhile is_space (rev v) @ dropWhile is_space (rev v))"
    by (simp only: rev_append)
  also have "\<dots> = rev (rev v)"
    by (simp only: takeWhile_dropWhile_id)
  finally show ?thesis by (simp add: rstrip_def)
qed

lemma strip_ends:
  assumes "strip t \<noteq> []"
  shows "\<not> is_space (hd (strip t)) \<and> \<not> is_space (last (strip t))"
proof -
  let ?v = "lstrip t"
  let ?u = "rstrip ?v"
  from assms have u: "?u \<noteq> []" by (simp add: strip_def)
  then have d: "dropWhile is_space (rev ?v) \<noteq> []" by (simp add: rstrip_def)
  then have "\<not> is_space (hd (dropWhile is_space (rev ?v)))" by (rule hd_dropWhile)
  moreover have "last ?u = hd (dropWhile is_space (rev ?v))"
    using d by (simp add: rstrip_def last_rev)
  ultimately have l: "\<not> is_space (last ?u)" by simp
  from rstrip_prefix [of ?v] u have "hd ?v = hd ?u"
    by (metis hd_append2)
  moreover from u have "?v \<noteq> []" by (auto simp: rstrip_def)
  then have "\<not> is_space (hd ?v)" unfolding lstrip_def by (rule hd_dropWhile)
  ultimately have "\<not> is_space (hd ?u)" by simp
  with l show ?thesis by (simp add: strip_def)
qed

lemma strip_well_formed: "strip t \<noteq> [] \<Longrightarrow> well_formed (strip t)"
  using strip_ends [of t] by (simp add: well_formed_def strip_id)

lemma well_formed_N_A: "well_formed N_A"
  by (simp add: well_formed_def N_A_def cps_def strip_def lstrip_def rstrip_def is_space_def)

section \<open>PriceNormalizer\<close>

text \<open>
  C2.  \<^verbatim>\<open>extract_price\<close> maps \<^verbatim>\<open>None\<close> and the empty text to \<^verbatim>\<open>None\<close>.  On any other text
  it returns the concatenation, in order, of the maximal digit runs of the text without
  rupee signs, commas and whitespace, and \<^verbatim>\<open>None\<close> when there is no such run.  The three
  values the spec lists come out as stated.  The function is total: it has no raising
  branch.
\<close>

theorem extract_price_normalizes:
  "extract_price None = None \<and>
   extract_price (Some []) = None \<and>
   (t \<noteq> [] \<longrightarrow>
      extract_price (Some t) =
        (if max_digit_runs (cleaned t) = [] then None
         else Some (concat (max_digit_runs (cleaned t))))) \<and>
   extract_price (Some (rupee # cps '' 12,500'')) = Some (cps ''12500'') \<and>
   extract_price (Some (cps ''no digits'')) = None"
proof -
  have "extract_price (Some (rupee # cps '' 12,500'')) = Some (cps ''12500'')"
    by (simp add: eval_defs)
  moreover have "extract_price (Some (cps ''no digits'')) = None"
    by (simp add: eval_defs)
  moreover have "extract_price None = None" "extract_price (Some []) = None"
    by (simp_all add: extract_price_def)
  ultimately show ?thesis
    using extract_price_Some [of t] by blast
qed

theorem extract_price_normalizes_witness:
  "rupee # cps '' 12,500'' \<noteq> [] \<and>
   extract_price (Some (rupee # cps '' 12,500'')) =
     Some (concat (max_digit_runs (cleaned (rupee # cps '' 12,500''))))"
proof -
  let ?t = "rupee # cps '' 12,500''"
  let ?runs = "max_digit_runs (cleaned ?t)"
  have ne: "?t \<noteq> []" by simp
  from extract_price_normalizes [of ?t]
  have a: "?t \<noteq> [] \<longrightarrow>
             extract_price (Some ?t) = (if ?runs = [] then None else Some (concat ?runs))"
    and b: "extract_price (Some ?t) = Some (cps ''12500'')"
    by blast+
  from a ne have c: "extract_price (Some ?t) = (if ?runs = [] then None else Some (concat ?runs))"
    by blast
  have "?runs \<noteq> []"
    using b c by (metis option.distinct(1))
  with c have "extract_price (Some ?t) = Some (concat ?runs)"
    by simp
  with ne show ?thesis by blast
qed

section \<open>RelevanceClassifier\<close>

lemma take_eq_prefix: "take (length k) s = k \<longleftrightarrow> (\<exists>post. s = k @ post)"
  by (metis append_eq_conv_conj append_take_drop_id)

lemma is_substring_occurs: "is_substring k s \<longleftrightarrow> occurs_in k s"
proof (induction s)
  case Nil
  then show ?case by (auto simp: occurs_in_def)
next
  case (Cons c cs)
  have "occurs_in k (c # cs) \<longleftrightarrow> (\<exists>post. c # cs = k @ post) \<or> occurs_in k cs"
  proof
    assume "occurs_in k (c # cs)"
    then obtain pre post where eq: "c # cs = pre @ k @ post"
      by (auto simp: occurs_in_def)
    show "(\<exists>post. c # cs = k @ post) \<or> occurs_in k cs"
    proof (cases pre)
      case Nil
      with eq show ?thesis by auto
    next
      case (Cons a pre')
      with eq have "cs = pre' @ k @ post" by simp
      then show ?thesis by (auto simp: occurs_in_def)
    qed
  next
    assume "(\<exists>post. c # cs = k @ post) \<or> occurs_in k cs"
    then show "occurs_in k (c # cs)"
    proof
      assume "\<exists>post. c # cs = k @ post"
      then obtain post where "c # cs = [] @ k @ post" by auto
      then show ?thesis unfolding occurs_in_def by blast
    next
      assume "occurs_in k cs"
      then obtain pre post where "cs = pre @ k @ post" by (auto simp: occurs_in_def)
      then have "c # cs = (c # pre) @ k @ post" by simp
      then show ?thesis unfolding occurs_in_def by blast
    qed
  qed
  with Cons show ?case by (simp only: is_substring.simps take_eq_prefix)
qed

lemma has_target_code:
  "has_target title \<longleftrightarrow> list_ex (\<lambda>keyword. is_substring keyword title) car_cover_keywords"
  by (simp add: has_target_def list_ex_iff is_substring_occurs)

lemma has_exclusion_code:
  "has_exclusion title \<longleftrightarrow> list_ex (\<lambda>keyword. is_substring keyword title) exclude_keywords"
  by (simp add: has_exclusion_def list_ex_iff is_substring_occurs)

lemma is_car_cover_listing_title:
  "dict_get listing_data ''title'' (Some []) = Some t \<Longrightarrow>
   is_car_cover_listing lower listing_data =
     Inr (has_target (lower t) \<and> \<not> has_exclusion (lower t))"
  by (simp add: is_car_cover_listing_def has_target_code has_exclusion_code Let_def)

lemmas classifier_eval = has_target_code has_exclusion_code dict_get_def car_cover_keywords_def
  exclude_keywords_def ascii_lower_def cps_def N_A_def

lemma lowers_ascii_ascii_lower: "lowers_ascii ascii_lower"
  by (simp add: lowers_ascii_def)

lemma lowers_ascii_apply:
  "lowers_ascii lower \<Longrightarrow> \<forall>c \<in> set s. c < 128 \<Longrightarrow> lower s = ascii_lower s"
  by (simp add: lowers_ascii_def)

text \<open>
  C3.  For a record whose title is the text \<open>t\<close> (or that has no title, \<open>t\<close> being empty),
  \<^verbatim>\<open>is_car_cover_listing\<close> returns \<open>hasTarget AND NOT hasExclusion\<close> of the lower-cased
  title, the two being substring tests against the six target and the nine exclusion
  keywords.  The spec's two examples come out true and false.
\<close>

theorem is_car_cover_listing_spec:
  "(dict_get listing_data ''title'' (Some []) = Some t \<longrightarrow>
      is_car_cover_listing lower listing_data =
        Inr (has_target (lower t) \<and> \<not> has_exclusion (lower t))) \<and>
   length car_cover_keywords = 6 \<and> length exclude_keywords = 9 \<and>
   (lowers_ascii lower \<longrightarrow>
      is_car_cover_listing lower [(''title'', Some (cps ''Premium Car Cover Waterproof''))]
        = Inr True \<and>
      is_car_cover_listing lower
        [(''title'', Some (cps ''2BHK flat with car cover design curtains''))] = Inr False)"
proof -
  have ex: "is_car_cover_listing lower [(''title'', Some (cps ''Premium Car Cover Waterproof''))]
              = Inr True \<and>
            is_car_cover_listing lower
              [(''title'', Some (cps ''2BHK flat with car cover design curtains''))] = Inr False"
    if l: "lowers_ascii lower"
  proof -
    have a1: "lower (cps ''Premium Car Cover Waterproof'')
                = ascii_lower (cps ''Premium Car Cover Waterproof'')"
      by (rule lowers_ascii_apply [OF l]) (simp add: cps_def)
    have a2: "lower (cps ''2BHK flat with car cover design curtains'')
                = ascii_lower (cps ''2BHK flat with car cover design curtains'')"
      by (rule lowers_ascii_apply [OF l]) (simp add: cps_def)
    have g1: "dict_get [(''title'', Some (cps ''Premium Car Cover Waterproof''))] ''title''
                (Some []) = Some (cps ''Premium Car Cover Waterproof'')"
      by (simp add: dict_get_def)
    have g2: "dict_get [(''title'', Some (cps ''2BHK flat with car cover design curtains''))]
                ''title'' (Some []) = Some (cps ''2BHK flat with car cover design curtains'')"
      by (simp add: dict_get_def)
    have t1: "has_target (ascii_lower (cps ''Premium Car Cover Waterproof''))"
      by (simp add: classifier_eval)
    have t2: "\<not> has_exclusion (ascii_lower (cps ''Premium Car Cover Waterproof''))"
      by (simp add: classifier_eval)
    have t3: "has_exclusion (ascii_lower (cps ''2BHK flat with car cover design curtains''))"
      by (simp add: classifier_eval)
    show ?thesis
      using t1 t2 t3
      by (simp only: is_car_cover_listing_title [OF g1] is_car_cover_listing_title [OF g2] a1 a2)
        simp
  qed
  have "length car_cover_keywords = 6" "length exclude_keywords = 9"
    by (simp_all add: car_cover_keywords_def exclude_keywords_def)
  with ex show ?thesis
    using is_car_cover_listing_title [of listing_data t lower] by blast
qed

theorem is_car_cover_listing_spec_witness:
  "dict_get [(''title'', Some (cps ''Premium Car Cover Waterproof''))] ''title'' (Some [])
     = Some (cps ''Premium Car Cover Waterproof'') \<and>
   lowers_ascii ascii_lower \<and>
   is_car_cover_listing ascii_lower [(''title'', Some (cps ''Premium Car Cover Waterproof''))]
     = Inr True \<and>
   has_target (ascii_lower (cps ''Premium Car Cover Waterproof'')) \<and>
   \<not> has_exclusion (ascii_lower (cps ''Premium Car Cover Waterproof''))"
proof -
  let ?d = "[(''title'', Some (cps ''Premium Car Cover Waterproof''))]"
  let ?t = "cps ''Premium Car Cover Waterproof''"
  have g: "dict_get ?d ''title'' (Some []) = Some ?t"
    by (simp add: dict_get_def)
  note spec = is_car_cover_listing_spec [of ?d ?t ascii_lower]
  from spec g have a: "is_car_cover_listing ascii_lower ?d
      = Inr (has_target (ascii_lower ?t) \<and> \<not> has_exclusion (ascii_lower ?t))"
    by blast
  from spec lowers_ascii_ascii_lower have b: "is_car_cover_listing ascii_lower ?d = Inr True"
    by blast
  from a b have "has_target (ascii_lower ?t) \<and> \<not> has_exclusion (ascii_lower ?t)"
    by simp
  with g b lowers_ascii_ascii_lower show ?thesis by blast
qed

section \<open>ListingLocator\<close>

lemma wait_loop_all_timeout:
  "\<forall>s \<in> set sels. until s = Inl TimeoutException \<Longrightarrow>
   wait_loop until sels tried = (Inr None, tried @ sels)"
  by (induction sels arbitrary: tried) auto

lemma wait_loop_prefix:
  "\<forall>s \<in> set pre. until s = Inl TimeoutException \<Longrightarrow>
   wait_loop until (pre @ sels) tried = wait_loop until sels (tried @ pre)"
  by (induction pre arbitrary: tried) auto

lemma wait_loop_found:
  "fst (wait_loop until sels tried) = Inr (Some sel) \<Longrightarrow>
   \<exists>pre post. sels = pre @ sel # post \<and> (\<forall>s \<in> set pre. until s = Inl TimeoutException) \<and>
     (\<exists>u. until sel = Inr u)"
proof (induction sels arbitrary: tried)
  case Nil
  then show ?case by simp
next
  case (Cons a sels)
  show ?case
  proof (cases "until a")
    case (Inr u)
    with Cons.prems have "sel = a" by simp
    with Inr have "a # sels = [] @ sel # sels \<and> (\<forall>s \<in> set []. until s = Inl TimeoutException)
        \<and> (\<exists>u. until sel = Inr u)" by simp
    then show ?thesis by blast
  next
    case (Inl e)
    show ?thesis
    proof (cases "e = TimeoutException")
      case True
      with Inl Cons.prems have "fst (wait_loop until sels (tried @ [a])) = Inr (Some sel)"
        by simp
      from Cons.IH [OF this] obtain pre post where
        "sels = pre @ sel # post" "\<forall>s \<in> set pre. until s = Inl TimeoutException"
        "\<exists>u. until sel = Inr u" by blast
      with Inl True have "a # sels = (a # pre) @ sel # post \<and>
        (\<forall>s \<in> set (a # pre). until s = Inl TimeoutException) \<and> (\<exists>u. until sel = Inr u)"
        by simp
      then show ?thesis by blast
    next
      case False
      with Inl Cons.prems show ?thesis by (cases e) simp_all
    qed
  qed
qed

lemma wait_loop_none_present:
  "\<forall>s \<in> set sels. \<forall>u. until s \<noteq> Inr u \<Longrightarrow> fst (wait_loop until sels tried) \<noteq> Inr (Some sel)"
  using wait_loop_found [of until sels tried sel] by (metis in_set_conv_decomp)

lemma wait_for_listings_fst:
  "wait_for_listings until =
     (case fst (wait_loop until listing_selectors []) of Inl e \<Rightarrow> None | Inr r \<Rightarrow> r)"
  by (simp add: wait_for_listings_def wait_for_listings_traced_def split: prod.splits sum.splits)

lemma wait_for_listings_Some:
  "wait_for_listings until = Some sel \<longleftrightarrow>
     (\<exists>pre post. listing_selectors = pre @ sel # post \<and>
        (\<forall>s \<in> set pre. until s = Inl TimeoutException) \<and> (\<exists>u. until sel = Inr u))"
proof
  assume "wait_for_listings until = Some sel"
  then have "fst (wait_loop until listing_selectors []) = Inr (Some sel)"
    by (simp add: wait_for_listings_fst split: sum.splits)
  then show "\<exists>pre post. listing_selectors = pre @ sel # post \<and>
        (\<forall>s \<in> set pre. until s = Inl TimeoutException) \<and> (\<exists>u. until sel = Inr u)"
    by (rule wait_loop_found)
next
  assume "\<exists>pre post. listing_selectors = pre @ sel # post \<and>
        (\<forall>s \<in> set pre. until s = Inl TimeoutException) \<and> (\<exists>u. until sel = Inr u)"
  then obtain pre post u where d: "listing_selectors = pre @ sel # post"
    and t: "\<forall>s \<in> set pre. until s = Inl TimeoutException" and u: "until sel = Inr u"
    by blast
  have "wait_loop until (pre @ sel # post) [] = wait_loop until (sel # post) ([] @ pre)"
    using t by (rule wait_loop_prefix)
  with d u show "wait_for_listings until = Some sel"
    by (simp add: wait_for_listings_fst)
qed

lemma wait_for_listings_None:
  assumes "\<forall>s \<in> set listing_selectors. \<forall>u. until s \<noteq> Inr u"
  shows "wait_for_listings until = None"
proof (cases "wait_for_listings until")
  case None
  then show ?thesis .
next
  case (Some sel)
  then obtain pre post u where d: "listing_selectors = pre @ sel # post" and u: "until sel = Inr u"
    unfolding wait_for_listings_Some by blast
  from d have "sel \<in> set listing_selectors"
    by (metis in_set_conv_decomp)
  with assms u show ?thesis by blast
qed

text \<open>
  C7.  \<^verbatim>\<open>wait_for_listings\<close> returns a selector exactly when that selector is one of the
  six, every selector listed before it timed out, and the wait for it found an element:
  the first selector, in the listed order, that matches.  When no selector matches it
  returns \<^verbatim>\<open>None\<close>, after waiting for all six when each of them times out.  An exception
  other than the timeout is caught and gives \<^verbatim>\<open>None\<close> too; the result type has no
  exception.
\<close>

theorem wait_for_listings_order:
  "(wait_for_listings until = Some sel \<longleftrightarrow>
      (\<exists>pre post. listing_selectors = pre @ sel # post \<and>
         (\<forall>s \<in> set pre. until s = Inl TimeoutException) \<and> (\<exists>u. until sel = Inr u))) \<and>
   ((\<forall>s \<in> set listing_selectors. \<forall>u. until s \<noteq> Inr u) \<longrightarrow> wait_for_listings until = None) \<and>
   ((\<forall>s \<in> set listing_selectors. until s = Inl TimeoutException) \<longrightarrow>
      wait_for_listings_traced until = (None, listing_selectors)) \<and>
   (fst (wait_loop until listing_selectors []) = Inl e \<longrightarrow> wait_for_listings until = None) \<and>
   length listing_selectors = 6"
proof -
  have traced: "wait_for_listings_traced until = (None, listing_selectors)"
    if "\<forall>s \<in> set listing_selectors. until s = Inl TimeoutException"
    using wait_loop_all_timeout [OF that, of "[]"] by (simp add: wait_for_listings_traced_def)
  have caught: "wait_for_listings until = None"
    if "fst (wait_loop until listing_selectors []) = Inl e"
    using that by (simp add: wait_for_listings_fst)
  have "length listing_selectors = 6"
    by (simp add: listing_selectors_def)
  with traced caught show ?thesis
    using wait_for_listings_Some [of until sel] wait_for_listings_None [of until] by blast
qed

theorem wait_for_listings_order_witness:
  "listing_selectors = [''[data-aut-id='itemBox']''] @ ''.EIR5N'' # drop 2 listing_selectors \<and>
   list_all (\<lambda>s. page1 s = Inl TimeoutException) [''[data-aut-id='itemBox']''] \<and>
   (\<exists>u. page1 ''.EIR5N'' = Inr u) \<and>
   wait_for_listings page1 = Some ''.EIR5N'' \<and>
   list_all (\<lambda>s. (Inl TimeoutException :: error + unit) = Inl TimeoutException)
     listing_selectors \<and>
   list_all (\<lambda>s. \<forall>u. (Inl TimeoutException :: error + unit) \<noteq> Inr u) listing_selectors \<and>
   wait_for_listings (\<lambda>s. Inl TimeoutException) = None \<and>
   wait_for_listings_traced (\<lambda>s. Inl TimeoutException) = (None, listing_selectors) \<and>
   fst (wait_loop (\<lambda>s. Inl WebDriverException) listing_selectors []) = Inl WebDriverException \<and>
   wait_for_listings (\<lambda>s. Inl WebDriverException) = None"
proof -
  have d: "listing_selectors = [''[data-aut-id='itemBox']''] @ ''.EIR5N'' # drop 2 listing_selectors"
    by (simp add: listing_selectors_def)
  have t: "\<forall>s \<in> set [''[data-aut-id='itemBox']'']. page1 s = Inl TimeoutException"
    by (simp add: page1_def)
  have u: "\<exists>u. page1 ''.EIR5N'' = Inr u"
    by (simp add: page1_def)
  have a: "wait_for_listings page1 = Some ''.EIR5N''"
    using wait_for_listings_order [of page1 "''.EIR5N''"] d t u by blast
  have n1: "\<forall>s \<in> set listing_selectors.
      (\<lambda>s. Inl TimeoutException :: error + unit) s = Inl TimeoutException"
    by simp
  have n2: "\<forall>s \<in> set listing_selectors.
      \<forall>u. (\<lambda>s. Inl TimeoutException :: error + unit) s \<noteq> Inr u"
    by simp
  have b: "wait_for_listings (\<lambda>s. Inl TimeoutException) = None"
    using wait_for_listings_order [of "\<lambda>s. Inl TimeoutException"] n2 by blast
  have c: "wait_for_listings_traced (\<lambda>s. Inl TimeoutException) = (None, listing_selectors)"
    using wait_for_listings_order [of "\<lambda>s. Inl TimeoutException"] n1 by blast
  have f: "fst (wait_loop (\<lambda>s. Inl WebDriverException) listing_selectors [])
      = Inl WebDriverException"
    by (simp add: listing_selectors_def)
  have g: "wait_for_listings (\<lambda>s. Inl WebDriverException) = None"
    using wait_for_listings_order [of "\<lambda>s. Inl WebDriverException" _ WebDriverException] f
    by blast
  from t have t': "list_all (\<lambda>s. page1 s = Inl TimeoutException) [''[data-aut-id='itemBox']'']"
    by (simp add: list_all_iff)
  have n1': "list_all (\<lambda>s. (Inl TimeoutException :: error + unit) = Inl TimeoutException)
      listing_selectors"
    by (simp add: list_all_iff)
  have n2': "list_all (\<lambda>s. \<forall>u. (Inl TimeoutException :: error + unit) \<noteq> Inr u)
      listing_selectors"
    by (simp add: list_all_iff)
  from d t' u a n1' n2' b c f g show ?thesis by blast
qed

section \<open>The scroll loop\<close>

lemma scroll_loop_unrolled:
  "scroll_loop b p 0 [] =
     (case scroll_to_load_more b p of (g1, p1) \<Rightarrow>
        if \<not> g1 then (p1, 0, [g1])
        else (case scroll_to_load_more b p1 of (g2, p2) \<Rightarrow>
          if \<not> g2 then (p2, 1, [g1, g2])
          else (case scroll_to_load_more b p2 of (g3, p3) \<Rightarrow>
            if \<not> g3 then (p3, 2, [g1, g2, g3]) else (p3, 3, [g1, g2, g3]))))"
proof -
  have s3: "scroll_loop b q 3 cs = (q, 3, cs)" for q cs
    by (subst scroll_loop.simps) (simp add: max_scrolls_def)
  have s2: "scroll_loop b q 2 cs =
      (case scroll_to_load_more b q of (g, q') \<Rightarrow>
         if \<not> g then (q', 2, cs @ [g]) else (q', 3, cs @ [g]))" for q cs
    using s3
    by (subst scroll_loop.simps)
      (simp add: max_scrolls_def numeral_2_eq_2 numeral_3_eq_3 split: prod.splits)
  have s1: "scroll_loop b q 1 cs =
      (case scroll_to_load_more b q of (g, q') \<Rightarrow>
         if \<not> g then (q', 1, cs @ [g]) else scroll_loop b q' 2 (cs @ [g]))" for q cs
    by (subst scroll_loop.simps)
      (simp add: max_scrolls_def numeral_2_eq_2 numeral_3_eq_3 split: prod.splits)
  have s0: "scroll_loop b q 0 cs =
      (case scroll_to_load_more b q of (g, q') \<Rightarrow>
         if \<not> g then (q', 0, cs @ [g]) else scroll_loop b q' 1 (cs @ [g]))" for q cs
    by (subst scroll_loop.simps)
      (simp add: max_scrolls_def numeral_2_eq_2 numeral_3_eq_3 split: prod.splits)
  show ?thesis
    by (simp add: s0 s1 s2 split: prod.splits del: One_nat_def)
qed

lemma scroll_no_growth:
  "\<forall>q. scroll_height b q = Inr h \<Longrightarrow> fst (scroll_to_load_more b p) = False"
  by (simp add: scroll_to_load_more_def split: sum.splits)

lemma scroll_to_load_more_grows: "fst (scroll_to_load_more b p) \<longleftrightarrow> grows b p"
  by (auto simp: scroll_to_load_more_def grows_def split: sum.splits)

lemma scroll_to_load_more_scrolled:
  "grows b p \<Longrightarrow> snd (scroll_to_load_more b p) = scrolled b p"
  by (auto simp: scroll_to_load_more_def grows_def scrolled_def split: sum.splits)

lemma scroll_loop_calls:
  "snd (snd (scroll_loop b p 0 [])) =
     (if \<not> grows b p then [False]
      else if \<not> grows b (scrolled b p) then [True, False]
      else [True, True, grows b (scrolled b (scrolled b p))])"
proof -
  obtain g1 p1 where e1: "scroll_to_load_more b p = (g1, p1)" by (cases "scroll_to_load_more b p")
  obtain g2 p2 where e2: "scroll_to_load_more b p1 = (g2, p2)" by (cases "scroll_to_load_more b p1")
  obtain g3 p3 where e3: "scroll_to_load_more b p2 = (g3, p3)" by (cases "scroll_to_load_more b p2")
  from e1 have g1: "g1 = grows b p" using scroll_to_load_more_grows [of b p] by simp
  from e2 have g2: "g2 = grows b p1" using scroll_to_load_more_grows [of b p1] by simp
  from e3 have g3: "g3 = grows b p2" using scroll_to_load_more_grows [of b p2] by simp
  have s1: "p1 = scrolled b p" if "grows b p"
    using scroll_to_load_more_scrolled [OF that] e1 by simp
  have s2: "p2 = scrolled b p1" if "grows b p1"
    using scroll_to_load_more_scrolled [OF that] e2 by simp
  show ?thesis
  proof (cases "grows b p")
    case False
    with e1 g1 show ?thesis by (simp add: scroll_loop_unrolled)
  next
    case True
    note t1 = this
    show ?thesis
    proof (cases "grows b p1")
      case False
      with t1 e1 e2 g1 g2 s1 show ?thesis by (simp add: scroll_loop_unrolled)
    next
      case True
      with t1 e1 e2 e3 g1 g2 g3 s1 s2 show ?thesis by (simp add: scroll_loop_unrolled)
    qed
  qed
qed

lemma grows_growing_0: "grows growing_page 0"
  unfolding grows_def
  by (rule exI [of _ 1000], rule exI [of _ 1], rule exI [of _ 1500])
    (simp add: growing_page_def still_page_def)

lemma grows_growing_1: "grows growing_page 1"
  unfolding grows_def
  by (rule exI [of _ 1500], rule exI [of _ 2], rule exI [of _ 2000])
    (simp add: growing_page_def still_page_def)

lemma grows_growing_2: "\<not> grows growing_page 2"
  by (simp add: grows_def growing_page_def still_page_def)

lemma scrolled_growing: "scrolled growing_page p = p + 1"
  by (simp add: scrolled_def growing_page_def still_page_def)


text \<open>
  C8.  The scroll loop of \<^verbatim>\<open>scrape_listings\<close> is a total function, written out below
  for its three possible calls of \<^verbatim>\<open>scroll_to_load_more\<close>.  It calls
  \<^verbatim>\<open>scroll_to_load_more\<close> at least once and at most three times; every call but the last
  reported growth, and a run of fewer than three calls ended with a call that reported
  none.  On a page whose height is the same in every state it makes exactly one call.
  A call of \<^verbatim>\<open>scroll_to_load_more\<close> reports growth exactly when the scroll produces
  page-height growth, and then leaves the scrolled page.  So the loop stops at the first
  scroll that produces no page-height growth: it makes one call when the first scroll
  produces none, two calls when the first does and the second does not, and three calls
  otherwise.
\<close>

theorem scroll_loop_bounded:
  "scroll_loop b p 0 [] =
     (case scroll_to_load_more b p of (g1, p1) \<Rightarrow>
        if \<not> g1 then (p1, 0, [g1])
        else (case scroll_to_load_more b p1 of (g2, p2) \<Rightarrow>
          if \<not> g2 then (p2, 1, [g1, g2])
          else (case scroll_to_load_more b p2 of (g3, p3) \<Rightarrow>
            if \<not> g3 then (p3, 2, [g1, g2, g3]) else (p3, 3, [g1, g2, g3])))) \<and>
   (scroll_loop b p 0 [] = (p', scroll_attempts, calls) \<longrightarrow>
     1 \<le> length calls \<and> length calls \<le> 3 \<and>
     scroll_attempts = length (filter id calls) \<and>
     (\<forall>i. i + 1 < length calls \<longrightarrow> calls ! i) \<and>
     (length calls < 3 \<longrightarrow> \<not> last calls) \<and>
     hd calls = fst (scroll_to_load_more b p) \<and>
     ((\<forall>q. scroll_height b q = Inr h) \<longrightarrow> calls = [False])) \<and>
   (fst (scroll_to_load_more b s) \<longleftrightarrow> grows b s) \<and>
   (grows b s \<longrightarrow> snd (scroll_to_load_more b s) = scrolled b s) \<and>
   (scroll_loop b p 0 [] = (p', scroll_attempts, calls) \<longrightarrow>
     calls =
       (if \<not> grows b p then [False]
        else if \<not> grows b (scrolled b p) then [True, False]
        else [True, True, grows b (scrolled b (scrolled b p))]))"
proof (rule conjI)
  show "scroll_loop b p 0 [] =
     (case scroll_to_load_more b p of (g1, p1) \<Rightarrow>
        if \<not> g1 then (p1, 0, [g1])
        else (case scroll_to_load_more b p1 of (g2, p2) \<Rightarrow>
          if \<not> g2 then (p2, 1, [g1, g2])
          else (case scroll_to_load_more b p2 of (g3, p3) \<Rightarrow>
            if \<not> g3 then (p3, 2, [g1, g2, g3]) else (p3, 3, [g1, g2, g3]))))"
    by (rule scroll_loop_unrolled)
next
  have answers: "scroll_loop b p 0 [] = (p', scroll_attempts, calls) \<longrightarrow>
     1 \<le> length calls \<and> length calls \<le> 3 \<and>
     scroll_attempts = length (filter id calls) \<and>
     (\<forall>i. i + 1 < length calls \<longrightarrow> calls ! i) \<and>
     (length calls < 3 \<longrightarrow> \<not> last calls) \<and>
     hd calls = fst (scroll_to_load_more b p) \<and>
     ((\<forall>q. scroll_height b q = Inr h) \<longrightarrow> calls = [False])"
  proof
    assume r: "scroll_loop b p 0 [] = (p', scroll_attempts, calls)"
    obtain g1 p1 where e1: "scroll_to_load_more b p = (g1, p1)" by (cases "scroll_to_load_more b p")
    obtain g2 p2 where e2: "scroll_to_load_more b p1 = (g2, p2)" by (cases "scroll_to_load_more b p1")
    obtain g3 p3 where e3: "scroll_to_load_more b p2 = (g3, p3)" by (cases "scroll_to_load_more b p2")
    have still: "\<not> g1" if "\<forall>q. scroll_height b q = Inr h"
      using scroll_no_growth [OF that, of p] e1 by simp
    have idx: "(\<forall>i. i + 1 < length [g1, g2] \<longrightarrow> [g1, g2] ! i) \<longleftrightarrow> g1"
      by (auto simp: less_Suc_eq)
    have idx3: "(\<forall>i. i + 1 < length [g1, g2, g3] \<longrightarrow> [g1, g2, g3] ! i) \<longleftrightarrow> g1 \<and> g2"
      by (auto simp: less_Suc_eq nth_Cons')
    consider (a) "\<not> g1" | (b) "g1" "\<not> g2" | (c) "g1" "g2" "\<not> g3" | (d) "g1" "g2" "g3" by blast
    then show "1 \<le> length calls \<and> length calls \<le> 3 \<and>
       scroll_attempts = length (filter id calls) \<and>
       (\<forall>i. i + 1 < length calls \<longrightarrow> calls ! i) \<and>
       (length calls < 3 \<longrightarrow> \<not> last calls) \<and>
       hd calls = fst (scroll_to_load_more b p) \<and>
       ((\<forall>q. scroll_height b q = Inr h) \<longrightarrow> calls = [False])"
    proof cases
      case a
      with r e1 have "calls = [g1]" "scroll_attempts = 0"
        by (simp_all add: scroll_loop_unrolled)
      with a e1 show ?thesis by simp
    next
      case b
      with r e1 e2 have "calls = [g1, g2]" "scroll_attempts = 1"
        by (simp_all add: scroll_loop_unrolled)
      with b e1 still idx show ?thesis by auto
    next
      case c
      with r e1 e2 e3 have "calls = [g1, g2, g3]" "scroll_attempts = 2"
        by (simp_all add: scroll_loop_unrolled)
      with c e1 still idx3 show ?thesis by auto
    next
      case d
      with r e1 e2 e3 have "calls = [g1, g2, g3]" "scroll_attempts = 3"
        by (simp_all add: scroll_loop_unrolled)
      with d e1 still idx3 show ?thesis by auto
    qed
  qed
  have heights: "scroll_loop b p 0 [] = (p', scroll_attempts, calls) \<longrightarrow>
     calls =
       (if \<not> grows b p then [False]
        else if \<not> grows b (scrolled b p) then [True, False]
        else [True, True, grows b (scrolled b (scrolled b p))])"
  proof
    assume "scroll_loop b p 0 [] = (p', scroll_attempts, calls)"
    then have "calls = snd (snd (scroll_loop b p 0 []))" by simp
    then show "calls =
       (if \<not> grows b p then [False]
        else if \<not> grows b (scrolled b p) then [True, False]
        else [True, True, grows b (scrolled b (scrolled b p))])"
      by (simp only: scroll_loop_calls)
  qed
  have tie: "fst (scroll_to_load_more b s) \<longleftrightarrow> grows b s"
    by (rule scroll_to_load_more_grows)
  have state: "grows b s \<longrightarrow> snd (scroll_to_load_more b s) = scrolled b s"
    by (simp add: scroll_to_load_more_scrolled)
  from answers tie state heights
  show "(scroll_loop b p 0 [] = (p', scroll_attempts, calls) \<longrightarrow>
     1 \<le> length calls \<and> length calls \<le> 3 \<and>
     scroll_attempts = length (filter id calls) \<and>
     (\<forall>i. i + 1 < length calls \<longrightarrow> calls ! i) \<and>
     (length calls < 3 \<longrightarrow> \<not> last calls) \<and>
     hd calls = fst (scroll_to_load_more b p) \<and>
     ((\<forall>q. scroll_height b q = Inr h) \<longrightarrow> calls = [False])) \<and>
   (fst (scroll_to_load_more b s) \<longleftrightarrow> grows b s) \<and>
   (grows b s \<longrightarrow> snd (scroll_to_load_more b s) = scrolled b s) \<and>
   (scroll_loop b p 0 [] = (p', scroll_attempts, calls) \<longrightarrow>
     calls =
       (if \<not> grows b p then [False]
        else if \<not> grows b (scrolled b p) then [True, False]
        else [True, True, grows b (scrolled b (scrolled b p))]))"
    by (intro conjI)
qed

theorem scroll_loop_bounded_witness:
  "scroll_loop still_page 0 0 [] = (1, 0, [False]) \<and>
   (\<forall>q. scroll_height still_page q = Inr 1080) \<and>
   length [False] = 1 \<and> hd [False] = fst (scroll_to_load_more still_page 0) \<and>
   \<not> grows still_page 0 \<and>
   scroll_loop growing_page 0 0 [] = (3, 2, [True, True, False]) \<and>
   scroll_height growing_page 0 = Inr 1000 \<and> scroll_height growing_page 1 = Inr 1500 \<and>
   scroll_height growing_page 2 = Inr 2000 \<and> scroll_height growing_page 3 = Inr 2000 \<and>
   grows growing_page 0 \<and> grows growing_page 1 \<and> \<not> grows growing_page 2 \<and>
   fst (scroll_to_load_more growing_page 0) \<and> snd (scroll_to_load_more growing_page 0) = 1"
proof -
  have h: "\<forall>q. scroll_height still_page q = Inr 1080"
    by (simp add: still_page_def)
  obtain p' n calls where r: "scroll_loop still_page 0 0 [] = (p', n, calls)"
    by (cases "scroll_loop still_page 0 0 []")
  from scroll_loop_bounded [of still_page 0 p' n calls 1080 0, THEN conjunct2, THEN conjunct1] r h
  have c: "calls = [False]" and n: "n = length (filter id calls)"
    and hd: "hd calls = fst (scroll_to_load_more still_page 0)" by blast+
  have "p' = 1"
    using r by (simp add: scroll_loop_unrolled scroll_to_load_more_def still_page_def)
  with r c n have still: "scroll_loop still_page 0 0 [] = (1, 0, [False])" by simp
  from hd c have hd': "hd [False] = fst (scroll_to_load_more still_page 0)" by simp
  from hd' scroll_loop_bounded [of still_page 0 p' n calls 1080 0,
      THEN conjunct2, THEN conjunct2, THEN conjunct1]
  have ng: "\<not> grows still_page 0" by simp
  obtain q' m cs where g: "scroll_loop growing_page 0 0 [] = (q', m, cs)"
    by (cases "scroll_loop growing_page 0 0 []")
  have sc: "scrolled growing_page 0 = 1" "scrolled growing_page 1 = 2"
    using scrolled_growing [of 0] scrolled_growing [of 1] by simp_all
  note b0 = scroll_loop_bounded [of growing_page 0 q' m cs 0 0]
  from b0 [THEN conjunct2, THEN conjunct2, THEN conjunct2, THEN conjunct2] g
  have cs: "cs = [True, True, False]"
    by (simp add: grows_growing_0 grows_growing_1 grows_growing_2 sc del: One_nat_def)
  from b0 [THEN conjunct2, THEN conjunct1] g cs have m: "m = 2" by simp
  from b0 [THEN conjunct2, THEN conjunct2, THEN conjunct1] grows_growing_0
  have f0: "fst (scroll_to_load_more growing_page 0)" by simp
  from b0 [THEN conjunct2, THEN conjunct2, THEN conjunct2, THEN conjunct1] grows_growing_0 sc
  have s0: "snd (scroll_to_load_more growing_page 0) = 1" by (simp del: One_nat_def)
  have "q' = 3"
    using g by (simp add: scroll_loop_unrolled scroll_to_load_more_def growing_page_def still_page_def)
  with g cs m have grow: "scroll_loop growing_page 0 0 [] = (3, 2, [True, True, False])" by simp
  have hs: "scroll_height growing_page 0 = Inr 1000" "scroll_height growing_page 1 = Inr 1500"
    "scroll_height growing_page 2 = Inr 2000" "scroll_height growing_page 3 = Inr 2000"
    by (simp_all add: growing_page_def still_page_def)
  from still h hd' ng grow hs grows_growing_0 grows_growing_1 grows_growing_2 f0 s0
  show ?thesis by simp
qed

section \<open>FieldExtractor\<close>

lemma extract_price_nonempty: "extract_price x \<noteq> Some []"
proof (cases x)
  case None
  then show ?thesis by (simp add: extract_price_def)
next
  case (Some t)
  have "filter is_digit t \<noteq> []" if "\<exists>c \<in> set t. is_digit c"
    using that by (simp add: filter_empty_conv)
  with Some show ?thesis by (simp add: extract_price_digits)
qed

lemma not_truthy_extract_price: "\<not> truthy (extract_price x) \<Longrightarrow> extract_price x = None"
  using extract_price_nonempty [of x] by (cases "extract_price x") (auto simp: truthy_def)

lemma text_chain_Inr:
  "text_chain n sels acc = Inr v \<Longrightarrow> \<not> truthy acc \<Longrightarrow>
   or_na v = Some (first_text n sels)"
proof (induction sels arbitrary: acc)
  case Nil
  then show ?case by (simp add: first_text_def matched_texts_def or_na_def map_filter_simps)
next
  case (Cons sel sels)
  have nt: "\<not> truthy (Some [])" by (simp add: truthy_def)
  show ?case
  proof (cases "n sel")
    case (Inl e)
    with Cons.prems have "e = NoSuchElementException" by (cases e) simp_all
    with Inl Cons.prems have "text_chain n sels acc = Inr v" by simp
    from Cons.IH [OF this Cons.prems(2)] Inl show ?thesis
      by (simp add: first_text_def matched_texts_def map_filter_simps)
  next
    case (Inr el)
    show ?thesis
    proof (cases "elem_text el")
      case (Inl e)
      with Inr Cons.prems have "e = NoSuchElementException" by (cases e) simp_all
      with Inl Inr Cons.prems have "text_chain n sels acc = Inr v" by simp
      from Cons.IH [OF this Cons.prems(2)] Inl Inr show ?thesis
        by (simp add: first_text_def matched_texts_def map_filter_simps)
    next
      case t: (Inr t)
      show ?thesis
      proof (cases "strip t = []")
        case True
        with t Inr Cons.prems have "text_chain n sels (Some []) = Inr v" by simp
        from Cons.IH [OF this nt] t Inr True show ?thesis
          by (simp add: first_text_def matched_texts_def map_filter_simps)
      next
        case False
        with t Inr Cons.prems have "v = Some (strip t)" by simp
        with t Inr False show ?thesis
          by (simp add: first_text_def matched_texts_def map_filter_simps or_na_def truthy_def)
      qed
    qed
  qed
qed

lemma price_chain_Inr:
  "price_chain n sels acc = Inr v \<Longrightarrow> \<not> truthy acc \<Longrightarrow>
   or_na v = Some (first_price n sels)"
proof (induction sels arbitrary: acc)
  case Nil
  then show ?case by (simp add: first_price_def matched_texts_def or_na_def map_filter_simps)
next
  case (Cons sel sels)
  show ?case
  proof (cases "n sel")
    case (Inl e)
    with Cons.prems have "e = NoSuchElementException" by (cases e) simp_all
    with Inl Cons.prems have "price_chain n sels acc = Inr v" by simp
    from Cons.IH [OF this Cons.prems(2)] Inl show ?thesis
      by (simp add: first_price_def matched_texts_def map_filter_simps)
  next
    case (Inr el)
    show ?thesis
    proof (cases "elem_text el")
      case (Inl e)
      with Inr Cons.prems have "e = NoSuchElementException" by (cases e) simp_all
      with Inl Inr Cons.prems have "price_chain n sels acc = Inr v" by simp
      from Cons.IH [OF this Cons.prems(2)] Inl Inr show ?thesis
        by (simp add: first_price_def matched_texts_def map_filter_simps)
    next
      case t: (Inr t)
      let ?p = "extract_price (Some (strip t))"
      show ?thesis
      proof (cases "truthy ?p")
        case True
        with t Inr Cons.prems have v: "v = ?p" by simp
        from True obtain p where p: "?p = Some p" by (cases ?p) (auto simp: truthy_def)
        with v True t Inr show ?thesis
          by (simp add: first_price_def matched_texts_def map_filter_simps or_na_def)
      next
        case False
        then have none: "?p = None" by (rule not_truthy_extract_price)
        from False t Inr Cons.prems have "price_chain n sels ?p = Inr v" by simp
        from Cons.IH [OF this False] t Inr none show ?thesis
          by (simp add: first_price_def matched_texts_def map_filter_simps)
      qed
    qed
  qed
qed

lemma text_chain_Inl:
  "text_chain n sels acc = Inl e \<Longrightarrow> \<exists>sel \<in> set sels. text_fault n sel"
proof (induction sels arbitrary: acc)
  case Nil
  then show ?case by simp
next
  case (Cons sel sels)
  show ?case
  proof (cases "text_fault n sel")
    case True
    then show ?thesis by simp
  next
    case False
    with Cons.prems have "\<exists>acc'. text_chain n sels acc' = Inl e"
      by (auto simp: text_fault_def split: sum.splits error.splits if_splits)
    with Cons.IH show ?thesis by auto
  qed
qed

lemma price_chain_Inl:
  "price_chain n sels acc = Inl e \<Longrightarrow> \<exists>sel \<in> set sels. text_fault n sel"
proof (induction sels arbitrary: acc)
  case Nil
  then show ?case by simp
next
  case (Cons sel sels)
  show ?case
  proof (cases "text_fault n sel")
    case True
    then show ?thesis by simp
  next
    case False
    with Cons.prems have "\<exists>acc'. price_chain n sels acc' = Inl e"
      by (auto simp: text_fault_def split: sum.splits error.splits if_splits)
    with Cons.IH show ?thesis by auto
  qed
qed

lemma url_field_Inl: "url_field n = Inl e \<Longrightarrow> href_fault n url_selector"
  by (auto simp: url_field_def href_fault_def split: sum.splits error.splits)

lemma matched_texts_stripped: "t \<in> set (matched_texts n sels) \<Longrightarrow> \<exists>u. t = strip u"
proof (induction sels)
  case Nil
  then show ?case by (simp add: matched_texts_def map_filter_simps)
next
  case (Cons sel sels)
  then show ?case
    by (auto simp: matched_texts_def map_filter_simps split: sum.splits)
qed

lemma first_text_well_formed: "well_formed (first_text n sels)"
proof (cases "filter (\<lambda>t. t \<noteq> []) (matched_texts n sels)")
  case Nil
  then show ?thesis by (simp add: first_text_def well_formed_N_A)
next
  case (Cons t ts)
  then have "t \<in> set (filter (\<lambda>t. t \<noteq> []) (matched_texts n sels))" by simp
  then have "t \<noteq> []" "t \<in> set (matched_texts n sels)" by simp_all
  then obtain u where "t = strip u"
    using matched_texts_stripped by blast
  with \<open>t \<noteq> []\<close> have "well_formed t" by (simp add: strip_well_formed)
  with Cons show ?thesis by (simp add: first_text_def)
qed

lemma digits_well_formed:
  assumes "p \<noteq> []" "list_all is_digit p"
  shows "well_formed p"
proof -
  from assms have "is_digit (hd p)" "is_digit (last p)"
    by (simp_all add: list_all_iff)
  then have "\<not> is_space (hd p)" "\<not> is_space (last p)"
    using digit_not_junk by (auto simp: is_price_junk_def)
  with assms(1) show ?thesis by (simp add: well_formed_def strip_id)
qed

lemma extract_price_Some_digits:
  "extract_price x = Some p \<Longrightarrow> p \<noteq> [] \<and> list_all is_digit p"
proof -
  assume a: "extract_price x = Some p"
  then obtain t where "x = Some t" by (cases x) (auto simp: extract_price_def)
  with a have "p = filter is_digit t" "\<exists>c \<in> set t. is_digit c"
    by (auto simp: extract_price_digits split: if_splits)
  then show ?thesis by (auto simp: list_all_iff filter_empty_conv)
qed

lemma first_price_shape:
  "first_price n sels = N_A \<or> (first_price n sels \<noteq> [] \<and> list_all is_digit (first_price n sels))"
proof (cases "List.map_filter (\<lambda>t. extract_price (Some t)) (matched_texts n sels)")
  case Nil
  then show ?thesis by (simp add: first_price_def)
next
  case (Cons p ps)
  then have "p \<in> set (List.map_filter (\<lambda>t. extract_price (Some t)) (matched_texts n sels))"
    by simp
  then obtain t where "extract_price (Some t) = Some p"
    by (auto simp: map_filter_def)
  from extract_price_Some_digits [OF this] Cons show ?thesis
    by (simp add: first_price_def)
qed

lemma extract_listing_data_record:
  assumes "extract_listing_data n = Some d"
  shows "\<exists>url. url_field n = Inr url \<and>
         d = [(''title'', Some (first_text n title_selectors)),
              (''price'', Some (first_price n price_selectors)),
              (''location'', Some (first_text n location_selectors)),
              (''date'', Some (first_text n date_selectors)),
              (''url'', url)]"
proof -
  have nt: "\<not> truthy None" by (simp add: truthy_def)
  from assms have b: "extract_listing_body n = Inr d"
    by (simp add: extract_listing_data_def split: sum.splits)
  then obtain title price location date url where
    c: "text_chain n title_selectors None = Inr title"
       "price_chain n price_selectors None = Inr price"
       "text_chain n location_selectors None = Inr location"
       "text_chain n date_selectors None = Inr date"
       "url_field n = Inr url"
    and d: "d = [(''title'', or_na title), (''price'', or_na price),
             (''location'', or_na location), (''date'', or_na date), (''url'', url)]"
    by (auto simp: extract_listing_body_def split: sum.splits)
  from c d show ?thesis
    using text_chain_Inr [OF c(1) nt] price_chain_Inr [OF c(2) nt]
      text_chain_Inr [OF c(3) nt] text_chain_Inr [OF c(4) nt] by simp
qed

text \<open>
  C4.  When \<^verbatim>\<open>extract_listing_data\<close> returns a record, its title, location and date are
  the first non-empty trimmed text along the field's selectors in their order, its price
  the first non-null \<^verbatim>\<open>extract_price\<close> of those texts, each \<^verbatim>\<open>N/A\<close> when the chain is
  exhausted.  It returns \<^verbatim>\<open>None\<close> only when a lookup or a read raised something other than
  \<^verbatim>\<open>NoSuchElementException\<close>; without such a fault it returns a record; and an exception
  of the body never leaves the function.
\<close>

theorem extract_listing_data_chains:
  "(extract_listing_data n = Some d \<longrightarrow>
      (\<exists>url. url_field n = Inr url \<and>
         d = [(''title'', Some (first_text n title_selectors)),
              (''price'', Some (first_price n price_selectors)),
              (''location'', Some (first_text n location_selectors)),
              (''date'', Some (first_text n date_selectors)),
              (''url'', url)])) \<and>
   (extract_listing_data n = None \<longrightarrow>
      (\<exists>selector \<in> set text_selectors. text_fault n selector) \<or> href_fault n url_selector) \<and>
   ((\<forall>selector \<in> set text_selectors. \<not> text_fault n selector) \<and> \<not> href_fault n url_selector
      \<longrightarrow> extract_listing_data n \<noteq> None) \<and>
   (extract_listing_body n = Inl e \<longrightarrow> extract_listing_data n = None)"
proof -
  have some: "\<exists>url. url_field n = Inr url \<and>
         d = [(''title'', Some (first_text n title_selectors)),
              (''price'', Some (first_price n price_selectors)),
              (''location'', Some (first_text n location_selectors)),
              (''date'', Some (first_text n date_selectors)),
              (''url'', url)]"
    if "extract_listing_data n = Some d"
    using that by (rule extract_listing_data_record)
  have none: "(\<exists>selector \<in> set text_selectors. text_fault n selector) \<or> href_fault n url_selector"
    if "extract_listing_data n = None"
  proof -
    from that obtain e' where "extract_listing_body n = Inl e'"
      by (auto simp: extract_listing_data_def split: sum.splits)
    then consider "text_chain n title_selectors None = Inl e'"
      | "price_chain n price_selectors None = Inl e'"
      | "text_chain n location_selectors None = Inl e'"
      | "text_chain n date_selectors None = Inl e'"
      | "url_field n = Inl e'"
      by (auto simp: extract_listing_body_def split: sum.splits)
    then show ?thesis
    proof cases
      case 1
      from text_chain_Inl [OF this] show ?thesis by (auto simp: text_selectors_def)
    next
      case 2
      from price_chain_Inl [OF this] show ?thesis by (auto simp: text_selectors_def)
    next
      case 3
      from text_chain_Inl [OF this] show ?thesis by (auto simp: text_selectors_def)
    next
      case 4
      from text_chain_Inl [OF this] show ?thesis by (auto simp: text_selectors_def)
    next
      case 5
      from url_field_Inl [OF this] show ?thesis by simp
    qed
  qed
  have caught: "extract_listing_data n = None" if "extract_listing_body n = Inl e"
    using that by (simp add: extract_listing_data_def)
  from some none caught show ?thesis by blast
qed

lemmas node_eval = extract_listing_data_def extract_listing_body_def title_selectors_def
  price_selectors_def location_selectors_def date_selectors_def url_selector_def url_field_def
  or_na_def truthy_def text_selectors_def

theorem extract_listing_data_chains_witness:
  "extract_listing_data sample_node =
     Some [(''title'', Some (cps ''Car body cover'')), (''price'', Some (cps ''1250'')),
           (''location'', Some N_A), (''date'', Some N_A),
           (''url'', Some (cps ''https://www.olx.in/item/1''))] \<and>
   first_text sample_node title_selectors = cps ''Car body cover'' \<and>
   first_price sample_node price_selectors = cps ''1250'' \<and>
   first_text sample_node location_selectors = N_A \<and>
   list_all (\<lambda>selector. \<not> text_fault sample_node selector) text_selectors \<and>
   \<not> href_fault sample_node url_selector \<and>
   extract_listing_data sample_node \<noteq> None \<and>
   extract_listing_body stale_node = Inl WebDriverException \<and>
   extract_listing_data stale_node = None \<and>
   list_ex (text_fault stale_node) text_selectors"
proof -
  let ?d = "[(''title'', Some (cps ''Car body cover'')), (''price'', Some (cps ''1250'')),
           (''location'', Some N_A), (''date'', Some N_A),
           (''url'', Some (cps ''https://www.olx.in/item/1''))]"
  have run: "extract_listing_data sample_node = Some ?d"
    by (simp add: node_eval sample_node_def eval_defs)
  from extract_listing_data_chains [of sample_node ?d] run
  have eq: "\<exists>url. url_field sample_node = Inr url \<and>
      ?d = [(''title'', Some (first_text sample_node title_selectors)),
            (''price'', Some (first_price sample_node price_selectors)),
            (''location'', Some (first_text sample_node location_selectors)),
            (''date'', Some (first_text sample_node date_selectors)),
            (''url'', url)]"
    by blast
  then have f: "first_text sample_node title_selectors = cps ''Car body cover''"
    "first_price sample_node price_selectors = cps ''1250''"
    "first_text sample_node location_selectors = N_A"
    by auto
  have ok: "\<forall>selector \<in> set text_selectors. \<not> text_fault sample_node selector"
    by (simp add: text_fault_def sample_node_def)
  have ok2: "\<not> href_fault sample_node url_selector"
    by (simp add: href_fault_def sample_node_def url_selector_def)
  from extract_listing_data_chains [of sample_node] ok ok2
  have nn: "extract_listing_data sample_node \<noteq> None" by blast
  have body: "extract_listing_body stale_node = Inl WebDriverException"
    by (simp add: node_eval stale_node_def)
  from extract_listing_data_chains [of stale_node _ WebDriverException] body
  have st: "extract_listing_data stale_node = None" by blast
  from extract_listing_data_chains [of stale_node] st
  have "(\<exists>selector \<in> set text_selectors. text_fault stale_node selector)
      \<or> href_fault stale_node url_selector" by blast
  moreover have "text_fault stale_node ''h2''"
    by (simp add: text_fault_def stale_node_def)
  ultimately have ex: "list_ex (text_fault stale_node) text_selectors"
    by (simp add: list_ex_iff text_selectors_def title_selectors_def)
  from ok have ok': "list_all (\<lambda>selector. \<not> text_fault sample_node selector) text_selectors"
    by (simp add: list_all_iff)
  from run f ok' ok2 nn body st ex show ?thesis by blast
qed

section \<open>RelevanceClassifier on every record\<close>

lemma or_na_not_None: "or_na v \<noteq> None"
  by (simp add: or_na_def truthy_def split: option.splits)

lemma extract_listing_data_title:
  assumes "extract_listing_data listing_element = Some listing_data"
  shows "\<exists>title. map_of listing_data ''title'' = Some (Some title)"
proof -
  from assms obtain title price location date url where
    "listing_data = [(''title'', or_na title), (''price'', or_na price),
       (''location'', or_na location), (''date'', or_na date), (''url'', url)]"
    by (auto simp: extract_listing_data_def extract_listing_body_def split: sum.splits)
  then have "map_of listing_data ''title'' = Some (or_na title)" by simp
  with or_na_not_None [of title] show ?thesis by (cases "or_na title") auto
qed

lemma is_car_cover_listing_None:
  "map_of listing_data ''title'' = Some None \<Longrightarrow>
   is_car_cover_listing lower listing_data = Inl AttributeError"
  by (simp add: is_car_cover_listing_def dict_get_def)

text \<open>
  C10 as stated fails: on a record whose title key holds \<^verbatim>\<open>None\<close>,
  \<^verbatim>\<open>listing_data.get('title', '')\<close> answers \<^verbatim>\<open>None\<close>, the key being present, and
  \<^verbatim>\<open>None.lower()\<close> raises \<^verbatim>\<open>AttributeError\<close>.
\<close>

theorem is_car_cover_listing_None_counterexample:
  "is_car_cover_listing ascii_lower [(''title'', None)] = Inl AttributeError"
  by (simp add: is_car_cover_listing_def dict_get_def)

text \<open>
  C10, amended.  \<^verbatim>\<open>is_car_cover_listing\<close> returns a truth value exactly on the records
  whose title, if there is one, is a text, and raises \<^verbatim>\<open>AttributeError\<close> on the others,
  whose title is \<^verbatim>\<open>None\<close>.  Every record that \<^verbatim>\<open>extract_listing_data\<close> returns is one on
  which it returns a truth value.  It returns false when the record has no title key
  (the lookup falls back to the empty text), when the title is empty or \<^verbatim>\<open>N/A\<close>, and
  whenever the lower-cased title contains no target keyword.
\<close>

theorem is_car_cover_listing_total:
  "((\<exists>b. is_car_cover_listing lower listing_data = Inr b) \<longleftrightarrow>
      map_of listing_data ''title'' \<noteq> Some None) \<and>
   (map_of listing_data ''title'' = Some None \<longrightarrow>
      is_car_cover_listing lower listing_data = Inl AttributeError) \<and>
   (extract_listing_data listing_element = Some listing_data \<longrightarrow>
      (\<exists>b. is_car_cover_listing lower listing_data = Inr b)) \<and>
   (lowers_ascii lower \<longrightarrow>
      map_of listing_data ''title'' \<in> {None, Some (Some []), Some (Some N_A)} \<longrightarrow>
      is_car_cover_listing lower listing_data = Inr False) \<and>
   (dict_get listing_data ''title'' (Some []) = Some t \<longrightarrow> \<not> has_target (lower t) \<longrightarrow>
      is_car_cover_listing lower listing_data = Inr False)"
proof -
  have total: "\<exists>b. is_car_cover_listing lower listing_data = Inr b"
    if "map_of listing_data ''title'' \<noteq> Some None"
  proof -
    from that obtain u where "dict_get listing_data ''title'' (Some []) = Some u"
      by (cases "map_of listing_data ''title''") (auto simp: dict_get_def)
    then show ?thesis by (simp add: is_car_cover_listing_title)
  qed
  have raises: "is_car_cover_listing lower listing_data = Inl AttributeError"
    if "map_of listing_data ''title'' = Some None"
    using that by (rule is_car_cover_listing_None)
  have exact: "(\<exists>b. is_car_cover_listing lower listing_data = Inr b) \<longleftrightarrow>
      map_of listing_data ''title'' \<noteq> Some None"
  proof
    assume "\<exists>b. is_car_cover_listing lower listing_data = Inr b"
    with raises show "map_of listing_data ''title'' \<noteq> Some None" by auto
  next
    assume "map_of listing_data ''title'' \<noteq> Some None"
    then show "\<exists>b. is_car_cover_listing lower listing_data = Inr b" by (rule total)
  qed
  have extracted: "\<exists>b. is_car_cover_listing lower listing_data = Inr b"
    if "extract_listing_data listing_element = Some listing_data"
    using extract_listing_data_title [OF that] by (auto intro: total)
  have none: "is_car_cover_listing lower listing_data = Inr False"
    if l: "lowers_ascii lower"
      and m: "map_of listing_data ''title'' \<in> {None, Some (Some []), Some (Some N_A)}"
  proof -
    have e: "lower [] = ascii_lower []"
      by (rule lowers_ascii_apply [OF l]) simp
    have n: "lower N_A = ascii_lower N_A"
      by (rule lowers_ascii_apply [OF l]) (simp add: N_A_def cps_def)
    have te: "\<not> has_target (ascii_lower [])" by (simp add: classifier_eval)
    have tn: "\<not> has_target (ascii_lower N_A)" by (simp add: classifier_eval)
    from m consider "dict_get listing_data ''title'' (Some []) = Some []"
      | "dict_get listing_data ''title'' (Some []) = Some N_A"
      by (auto simp: dict_get_def)
    then show ?thesis
    proof cases
      case 1
      then show ?thesis using te e by (simp add: is_car_cover_listing_title)
    next
      case 2
      then show ?thesis using tn n by (simp add: is_car_cover_listing_title)
    qed
  qed
  have notarget: "is_car_cover_listing lower listing_data = Inr False"
    if "dict_get listing_data ''title'' (Some []) = Some t" "\<not> has_target (lower t)"
    using that by (simp add: is_car_cover_listing_title)
  from exact raises extracted none notarget show ?thesis by blast
qed

theorem is_car_cover_listing_total_witness:
  "lowers_ascii ascii_lower \<and>
   is_car_cover_listing ascii_lower [] = Inr False \<and>
   is_car_cover_listing ascii_lower [(''title'', Some [])] = Inr False \<and>
   is_car_cover_listing ascii_lower [(''title'', Some N_A), (''price'', Some (cps ''500''))]
     = Inr False \<and>
   dict_get [(''title'', Some (cps ''Bike cover''))] ''title'' (Some [])
     = Some (cps ''Bike cover'') \<and>
   \<not> has_target (ascii_lower (cps ''Bike cover'')) \<and>
   is_car_cover_listing ascii_lower [(''title'', Some (cps ''Bike cover''))] = Inr False \<and>
   map_of [(''title'', None :: pyval)] ''title'' = Some None \<and>
   is_car_cover_listing ascii_lower [(''title'', None)] = Inl AttributeError \<and>
   (\<nexists>b. is_car_cover_listing ascii_lower [(''title'', None)] = Inr b) \<and>
   extract_listing_data sample_node =
     Some [(''title'', Some (cps ''Car body cover'')), (''price'', Some (cps ''1250'')),
           (''location'', Some N_A), (''date'', Some N_A),
           (''url'', Some (cps ''https://www.olx.in/item/1''))] \<and>
   (\<exists>b. is_car_cover_listing ascii_lower
           [(''title'', Some (cps ''Car body cover'')), (''price'', Some (cps ''1250'')),
            (''location'', Some N_A), (''date'', Some N_A),
            (''url'', Some (cps ''https://www.olx.in/item/1''))] = Inr b)"
proof -
  let ?na = "[(''title'', Some N_A), (''price'', Some (cps ''500''))]"
  let ?bike = "[(''title'', Some (cps ''Bike cover''))]"
  let ?none = "[(''title'', None :: pyval)]"
  let ?d = "[(''title'', Some (cps ''Car body cover'')), (''price'', Some (cps ''1250'')),
           (''location'', Some N_A), (''date'', Some N_A),
           (''url'', Some (cps ''https://www.olx.in/item/1''))]"
  note l = lowers_ascii_ascii_lower
  have m0: "map_of ([] :: listing) ''title'' \<in> {None, Some (Some []), Some (Some N_A)}" by simp
  have m1: "map_of [(''title'', Some [])] ''title'' \<in> {None, Some (Some []), Some (Some N_A)}"
    by simp
  have m2: "map_of ?na ''title'' \<in> {None, Some (Some []), Some (Some N_A)}" by simp
  have r0: "is_car_cover_listing ascii_lower [] = Inr False"
    by (rule is_car_cover_listing_total [of ascii_lower "[]", THEN conjunct2, THEN conjunct2,
        THEN conjunct2, THEN conjunct1, THEN mp, THEN mp, OF l m0])
  have r1: "is_car_cover_listing ascii_lower [(''title'', Some [])] = Inr False"
    by (rule is_car_cover_listing_total [of ascii_lower "[(''title'', Some [])]", THEN conjunct2,
        THEN conjunct2, THEN conjunct2, THEN conjunct1, THEN mp, THEN mp, OF l m1])
  have r2: "is_car_cover_listing ascii_lower ?na = Inr False"
    by (rule is_car_cover_listing_total [of ascii_lower ?na, THEN conjunct2,
        THEN conjunct2, THEN conjunct2, THEN conjunct1, THEN mp, THEN mp, OF l m2])
  have g: "dict_get ?bike ''title'' (Some []) = Some (cps ''Bike cover'')"
    by (simp add: dict_get_def)
  have nt: "\<not> has_target (ascii_lower (cps ''Bike cover''))"
    by (simp add: classifier_eval)
  have r3: "is_car_cover_listing ascii_lower ?bike = Inr False"
    by (rule is_car_cover_listing_total [of ascii_lower ?bike _ "cps ''Bike cover''",
        THEN conjunct2, THEN conjunct2, THEN conjunct2, THEN conjunct2, THEN mp, THEN mp,
        OF g nt])
  have mn: "map_of ?none ''title'' = Some None" by simp
  have r4: "is_car_cover_listing ascii_lower ?none = Inl AttributeError"
    by (rule is_car_cover_listing_total [of ascii_lower ?none, THEN conjunct2, THEN conjunct1,
        THEN mp, OF mn])
  have r5: "\<nexists>b. is_car_cover_listing ascii_lower ?none = Inr b"
    using is_car_cover_listing_total [of ascii_lower ?none, THEN conjunct1] mn by simp
  have run: "extract_listing_data sample_node = Some ?d"
    by (simp add: node_eval sample_node_def eval_defs)
  have r6: "\<exists>b. is_car_cover_listing ascii_lower ?d = Inr b"
    by (rule is_car_cover_listing_total [of ascii_lower ?d sample_node, THEN conjunct2,
        THEN conjunct2, THEN conjunct1, THEN mp, OF run])
  from l r0 r1 r2 g nt r3 mn r4 r5 run r6 show ?thesis by (intro conjI)
qed

section \<open>ScrapeOrchestrator\<close>

lemma extract_listing_data_nonempty: "extract_listing_data element = Some d \<Longrightarrow> d \<noteq> []"
  by (auto simp: extract_listing_data_def extract_listing_body_def split: sum.splits)

lemma listing_loop_map_filter:
  "listing_loop lower elements acc = acc @ List.map_filter (relevant_listing lower) elements"
proof (induction elements arbitrary: acc)
  case Nil
  then show ?case by (simp add: map_filter_simps)
next
  case (Cons element elements)
  show ?case
  proof (cases "extract_listing_data element")
    case None
    with Cons show ?thesis by (simp add: map_filter_simps relevant_listing_def)
  next
    case (Some d)
    with extract_listing_data_nonempty have "d \<noteq> []" by blast
    with Some Cons show ?thesis
      by (cases "is_car_cover_listing lower d")
        (auto simp: map_filter_simps relevant_listing_def)
  qed
qed

lemma scrape_listings_Inl:
  "scrape_listings lower b = Inl e \<longleftrightarrow> setup_driver b \<and> driver_quit b = Inl e"
proof (cases "setup_driver b")
  case False
  then show ?thesis by (simp add: scrape_listings_def)
next
  case True
  obtain way all_listings where s: "session lower b = (way, all_listings)"
    by (cases "session lower b")
  show ?thesis
  proof (cases "driver_quit b")
    case (Inl e0)
    with True s show ?thesis by (simp add: scrape_listings_def)
  next
    case (Inr u)
    with True s show ?thesis by (cases way) (simp_all add: scrape_listings_def)
  qed
qed

text \<open>
  What \<^verbatim>\<open>scrape_listings\<close> returns, way by way: the empty list when the setup fails or
  when the page load, the page source, the write of the debug file or \<^verbatim>\<open>find_elements\<close>
  raises; the degraded extractor's listings when no container selector is located; and
  otherwise the records of the located nodes that yield a relevant record, in order, a
  node whose extraction or classification fails being passed over.
\<close>

lemma scrape_listings_outcome:
  "scrape_listings lower b =
     (if \<not> setup_driver b then Inr []
      else
        (case driver_quit b of
           Inl e \<Rightarrow> Inl e
         | Inr _ \<Rightarrow>
             (case driver_get b of
                Inl e \<Rightarrow> Inr []
              | Inr p \<Rightarrow>
                  (case wait_for_listings (wait_until b p) of
                     None \<Rightarrow>
                       (case driver_page_source b p of
                          Inl e \<Rightarrow> Inr []
                        | Inr src \<Rightarrow>
                            (case write_file b src of
                               Inl e \<Rightarrow> Inr []
                             | Inr _ \<Rightarrow> Inr (extract_from_page_source src)))
                   | Some listing_selector \<Rightarrow>
                       (case find_elements b (fst (scroll_loop b p 0 [])) listing_selector of
                          Inl e \<Rightarrow> Inr []
                        | Inr listing_elements \<Rightarrow>
                            Inr (List.map_filter (relevant_listing lower) listing_elements))))))"
proof (cases "setup_driver b")
  case False
  then show ?thesis by (simp add: scrape_listings_def)
next
  case True
  show ?thesis
  proof (cases "driver_quit b")
    case (Inl e)
    with True show ?thesis by (simp add: scrape_listings_def split: prod.splits)
  next
    case q: (Inr u)
    show ?thesis
    proof (cases "driver_get b")
      case (Inl e)
      with True q show ?thesis by (simp add: scrape_listings_def session_def)
    next
      case p: (Inr p)
      show ?thesis
      proof (cases "wait_for_listings (wait_until b p)")
        case None
        show ?thesis
        proof (cases "driver_page_source b p")
          case (Inl e)
          with True q p None show ?thesis by (simp add: scrape_listings_def session_def)
        next
          case (Inr src)
          with True q p None show ?thesis
            by (cases "write_file b src") (simp_all add: scrape_listings_def session_def)
        qed
      next
        case (Some selector)
        obtain p' n calls where sl: "scroll_loop b p 0 [] = (p', n, calls)"
          by (cases "scroll_loop b p 0 []")
        with True q p Some show ?thesis
          by (cases "find_elements b p' selector")
            (simp_all add: scrape_listings_def session_def listing_loop_map_filter)
      qed
    qed
  qed
qed

text \<open>
  An exception raised inside \<^verbatim>\<open>scroll_to_load_more\<close> or \<^verbatim>\<open>wait_for_listings\<close> is caught by
  that method; the session goes on and returns what it finds.
\<close>

lemma wait_for_listings_still: "wait_for_listings (\<lambda>s. Inr ()) = Some ''[data-aut-id='itemBox']''"
  by (simp add: wait_for_listings_def wait_for_listings_traced_def listing_selectors_def)

lemma wait_for_listings_fault: "wait_for_listings (\<lambda>s. Inl WebDriverException) = None"
  by (simp add: wait_for_listings_def wait_for_listings_traced_def listing_selectors_def)

lemma relevant_sample:
  "relevant_listing ascii_lower sample_node =
     Some [(''title'', Some (cps ''Car body cover'')), (''price'', Some (cps ''1250'')),
           (''location'', Some N_A), (''date'', Some N_A),
           (''url'', Some (cps ''https://www.olx.in/item/1''))]"
proof -
  let ?d = "[(''title'', Some (cps ''Car body cover'')), (''price'', Some (cps ''1250'')),
           (''location'', Some N_A), (''date'', Some N_A),
           (''url'', Some (cps ''https://www.olx.in/item/1''))]"
  have run: "extract_listing_data sample_node = Some ?d"
    by (simp add: node_eval sample_node_def eval_defs)
  have g: "dict_get ?d ''title'' (Some []) = Some (cps ''Car body cover'')"
    by (simp add: dict_get_def)
  have "has_target (ascii_lower (cps ''Car body cover''))"
    "\<not> has_exclusion (ascii_lower (cps ''Car body cover''))"
    by (simp_all add: classifier_eval)
  then have "is_car_cover_listing ascii_lower ?d = Inr True"
    by (simp add: is_car_cover_listing_title [OF g])
  with run show ?thesis by (simp add: relevant_listing_def)
qed

lemma relevant_stale: "relevant_listing lower stale_node = None"
  by (simp add: relevant_listing_def node_eval stale_node_def)

lemma scrape_listings_scroll_fault:
  "scrape_listings ascii_lower scroll_fails =
     Inr [[(''title'', Some (cps ''Car body cover'')), (''price'', Some (cps ''1250'')),
           (''location'', Some N_A), (''date'', Some N_A),
           (''url'', Some (cps ''https://www.olx.in/item/1''))]]"
  by (simp add: scrape_listings_outcome scroll_fails_def still_page_def wait_for_listings_still
      map_filter_simps relevant_sample relevant_stale)

lemma scrape_listings_wait_fault:
  "scrape_listings ascii_lower wait_fails =
     Inr [[(''title'', Some (cps ''seat cover'')), (''price'', Some (cps ''50'')),
           (''location'', Some N_A), (''date'', Some N_A), (''url'', Some N_A)]]"
proof -
  have "extract_from_page_source seat_markup =
     [[(''title'', Some (cps ''seat cover'')), (''price'', Some (cps ''50'')),
           (''location'', Some N_A), (''date'', Some N_A), (''url'', Some N_A)]]"
    by (simp add: seat_markup_def eval_defs)
  then show ?thesis
    by (simp add: scrape_listings_outcome wait_fails_def still_page_def wait_for_listings_fault)
qed

text \<open>
  C9.  \<^verbatim>\<open>driver.quit()\<close> is called in the \<^verbatim>\<open>finally\<close> block, outside every handler.  On
  the still page with a \<^verbatim>\<open>driver.quit()\<close> that raises, \<^verbatim>\<open>scrape_listings\<close> raises that
  exception, while the same exception raised by the page load is caught and gives the
  empty list.  An exception leaves \<^verbatim>\<open>scrape_listings\<close> exactly when the driver was set
  up and \<^verbatim>\<open>driver.quit()\<close> raises it.
\<close>

theorem scrape_listings_quit_propagates:
  "scrape_listings ascii_lower quit_fails = Inl WebDriverException \<and>
   scrape_listings ascii_lower load_fails = Inr [] \<and>
   (scrape_listings lower b = Inl e \<longleftrightarrow> setup_driver b \<and> driver_quit b = Inl e)"
proof -
  have "setup_driver quit_fails" "driver_quit quit_fails = Inl WebDriverException"
    by (simp_all add: quit_fails_def still_page_def)
  then have quit: "scrape_listings ascii_lower quit_fails = Inl WebDriverException"
    by (simp add: scrape_listings_Inl)
  have load: "scrape_listings ascii_lower load_fails = Inr []"
    by (simp add: scrape_listings_outcome load_fails_def still_page_def)
  from quit load scrape_listings_Inl [of lower b e] show ?thesis by (intro conjI)
qed

section \<open>DegradedTextExtractor\<close>

lemma loop_context:
  "slice src (nat (max 0 (int i - 200))) (min (length src) (j + 200)) = context_window src (i, j)"
proof -
  have "nat (max 0 (int i - 200)) = i - 200" by arith
  moreover have "take (min (length src) (j + 200) - (i - 200)) (drop (i - 200) src)
      = take (j + 200 - (i - 200)) (drop (i - 200) src)"
    by (rule nth_equalityI) auto
  ultimately show ?thesis
    by (simp add: slice_def context_window_def drop_take)
qed

lemma degraded_loop_map_filter:
  "degraded_loop src ms listings = listings @ List.map_filter (degraded_listing src) ms"
proof (induction ms arbitrary: listings)
  case Nil
  then show ?case by (simp add: map_filter_simps)
next
  case (Cons m ms)
  obtain i j where m: "m = (i, j)" by (cases m)
  show ?case
  proof (cases "re_search title_pattern (context_window src (i, j))")
    case None
    with Cons m show ?thesis
      by (simp add: loop_context degraded_listing_def map_filter_simps Let_def)
  next
    case (Some ab)
    obtain a b where "ab = (a, b)" by (cases ab)
    with Some Cons m show ?thesis
      by (simp add: loop_context degraded_listing_def map_filter_simps Let_def)
  qed
qed

text \<open>
  C5.  \<^verbatim>\<open>extract_from_page_source\<close> goes through the matches of the price pattern, which
  do not overlap and come in the order of their positions, and emits for each match
  whose context (200 characters before its start to 200 after its end, within the
  markup) holds a match of the title pattern one listing: its title the first such
  match, trimmed, its price \<^verbatim>\<open>extract_price\<close> of the matched price text, and \<^verbatim>\<open>N/A\<close> for
  location, date and url.  The other matches are dropped, and the listings keep the
  order of the matches.
\<close>

theorem extract_from_page_source_spec:
  "extract_from_page_source markup
     = List.map_filter (degraded_listing markup) (finditer price_pattern markup) \<and>
   spans_ordered 0 (finditer price_pattern markup) \<and>
   (\<forall>m \<in> set (finditer price_pattern markup). span_ok price_pattern 0 markup m) \<and>
   (re_search title_pattern ctx = Some (a, b) \<longrightarrow>
      a \<le> b \<and> b \<le> length ctx \<and>
      re_match title_pattern (drop a ctx) = Some (drop b ctx) \<and>
      (\<forall>k < a. re_match title_pattern (drop k ctx) = None)) \<and>
   (re_search title_pattern ctx = None \<longrightarrow>
      (\<forall>k \<le> length ctx. re_match title_pattern (drop k ctx) = None))"
proof -
  have "extract_from_page_source markup
     = List.map_filter (degraded_listing markup) (finditer price_pattern markup)"
    using degraded_loop_map_filter [of markup _ "[]"] by (simp add: extract_from_page_source_def)
  moreover have "spans_ordered 0 (finditer price_pattern markup)"
    "\<forall>m \<in> set (finditer price_pattern markup). span_ok price_pattern 0 markup m"
    using finditer_from_spans [of 0 price_pattern markup] by (simp_all add: finditer_def)
  moreover have "a \<le> b \<and> b \<le> length ctx \<and>
      re_match title_pattern (drop a ctx) = Some (drop b ctx) \<and>
      (\<forall>k < a. re_match title_pattern (drop k ctx) = None)"
    if "re_search title_pattern ctx = Some (a, b)"
    using search_from_Some [of title_pattern 0 ctx a b] that by (simp add: re_search_def)
  moreover have "\<forall>k \<le> length ctx. re_match title_pattern (drop k ctx) = None"
    if "re_search title_pattern ctx = None"
    using search_from_None [of title_pattern 0 ctx] that by (simp add: re_search_def)
  ultimately show ?thesis by blast
qed

theorem extract_from_page_source_spec_witness:
  "finditer price_pattern seat_markup = [(3, 18)] \<and>
   span_ok price_pattern 0 seat_markup (3, 18) \<and>
   re_search title_pattern seat_markup = Some (8, 18) \<and>
   re_match title_pattern (drop 8 seat_markup) = Some (drop 18 seat_markup) \<and>
   re_match title_pattern (drop 7 seat_markup) = None \<and>
   re_search title_pattern (cps ''abc'') = None \<and>
   re_match title_pattern (drop 1 (cps ''abc'')) = None \<and>
   extract_from_page_source seat_markup =
     [[(''title'', Some (cps ''seat cover'')), (''price'', Some (cps ''50'')),
       (''location'', Some N_A), (''date'', Some N_A), (''url'', Some N_A)]]"
proof -
  note spec = extract_from_page_source_spec [of seat_markup]
  have f: "finditer price_pattern seat_markup = [(3, 18)]"
    by (simp add: seat_markup_def eval_defs)
  from spec [THEN conjunct2, THEN conjunct2, THEN conjunct1] f
  have sp: "span_ok price_pattern 0 seat_markup (3, 18)" by simp
  have rs: "re_search title_pattern seat_markup = Some (8, 18)"
    by (simp add: seat_markup_def eval_defs)
  from extract_from_page_source_spec [of _ seat_markup 8 18,
      THEN conjunct2, THEN conjunct2, THEN conjunct2, THEN conjunct1] rs
  have m: "re_match title_pattern (drop 8 seat_markup) = Some (drop 18 seat_markup) \<and>
      (\<forall>k < 8. re_match title_pattern (drop k seat_markup) = None)" by blast
  then have m6: "re_match title_pattern (drop 7 seat_markup) = None" by simp
  have rn: "re_search title_pattern (cps ''abc'') = None"
    by (simp add: eval_defs)
  from extract_from_page_source_spec [of _ "cps ''abc''",
      THEN conjunct2, THEN conjunct2, THEN conjunct2, THEN conjunct2] rn
  have "\<forall>k \<le> length (cps ''abc''). re_match title_pattern (drop k (cps ''abc'')) = None"
    by (rule mp)
  then have "1 \<le> length (cps ''abc'') \<longrightarrow> re_match title_pattern (drop 1 (cps ''abc'')) = None"
    by blast
  moreover have "1 \<le> length (cps ''abc'')" by (simp add: cps_def)
  ultimately have n1: "re_match title_pattern (drop 1 (cps ''abc'')) = None"
    by (rule mp)
  have cw: "context_window seat_markup (3, 18) = seat_markup"
    by (simp add: context_window_def seat_markup_def cps_def)
  have dl: "degraded_listing seat_markup (3, 18) =
      Some [(''title'', Some (cps ''seat cover'')), (''price'', Some (cps ''50'')),
       (''location'', Some N_A), (''date'', Some N_A), (''url'', Some N_A)]"
    unfolding degraded_listing_def cw rs
    by (simp add: seat_markup_def eval_defs)
  from spec [THEN conjunct1] f dl
  have e: "extract_from_page_source seat_markup =
     [[(''title'', Some (cps ''seat cover'')), (''price'', Some (cps ''50'')),
       (''location'', Some N_A), (''date'', Some N_A), (''url'', Some N_A)]]"
    by (simp add: map_filter_simps)
  from f sp rs m m6 rn n1 e show ?thesis by (intro conjI) simp_all
qed

lemma length_sedan_span: "length sedan_span = 36"
  by (simp add: sedan_span_def cps_def)

lemma price_match_sedan:
  assumes "post = [] \<or> hd post = 60 \<or> hd post = 10"
  shows "re_match price_pattern (sedan_span @ post) = Some post"
proof (cases post)
  case Nil
  then show ?thesis by (simp add: sedan_span_def eval_defs)
next
  case (Cons c cs)
  with assms consider "c = 60" | "c = 10" by auto
  then show ?thesis
  proof cases
    case 1
    with Cons show ?thesis by (simp add: sedan_span_def eval_defs)
  next
    case 2
    with Cons show ?thesis by (simp add: sedan_span_def eval_defs)
  qed
qed

lemma re_match_title:
  "re_match title_pattern s =
     (case ends (Alt (cover_kw ''car'') (Alt (cover_kw ''seat'') (Alt (cover_kw ''body'')
                  (cover_kw ''wheel'')))) s of
        [] \<Rightarrow> None
      | x # _ \<Rightarrow> Some (dropWhile not_tag x))"
  unfolding title_pattern_def re_match_Seq_Star
  by (simp add: re_match_def split: list.splits)

lemma title_search_sedan:
  "search_from title_pattern pos (sedan_span @ post) =
     Some (pos + 17, pos + 36 + length (takeWhile not_tag post))"
proof -
  have len: "length post - length (dropWhile not_tag post) = length (takeWhile not_tag post)"
    by (metis add_diff_cancel_right' length_append takeWhile_dropWhile_id)
  have le: "length (dropWhile not_tag post) \<le> length post"
    by (rule length_dropWhile_le)
  have "search_from title_pattern pos (sedan_span @ post) =
     Some (pos + 17, pos + 17 + (19 + length post - length (dropWhile not_tag post)))"
    by (simp add: sedan_span_def re_match_title cover_kw_def lit_i_def icase_def
        is_space_def rupee_def cps_def not_tag_def)
  with len le show ?thesis by simp
qed

lemma sedan_context:
  "context_window (pre @ sedan_span @ post) (length pre, length pre + 36)
     = drop (length pre - 200) pre @ sedan_span @ take 200 post"
  by (simp add: context_window_def length_sedan_span)

lemma sedan_title_text:
  "slice (w @ sedan_span @ post) (length w + 17) (length w + 36 + length (takeWhile not_tag post))
     = cps ''Car Cover for Sedan'' @ takeWhile not_tag post"
proof -
  have "drop 17 sedan_span = cps ''Car Cover for Sedan''"
    by (simp add: sedan_span_def cps_def)
  moreover have "length (cps ''Car Cover for Sedan'') = 19"
    by (simp add: cps_def)
  moreover have "take (length (takeWhile not_tag post)) post = takeWhile not_tag post"
    by (metis takeWhile_eq_take)
  ultimately show ?thesis
    by (simp add: slice_def length_sedan_span)
qed

lemma sedan_title_strip:
  "strip (cps ''Car Cover for Sedan'' @ y) = cps ''Car Cover for Sedan'' @ rstrip y"
  by (rule strip_append) (simp_all add: cps_def is_space_def)

lemma sedan_price: "extract_price (Some sedan_span) = Some (cps ''899'')"
  by (simp add: sedan_span_def eval_defs)

lemma sedan_listing:
  assumes "\<forall>k < length (drop (length pre - 200) pre).
      re_match title_pattern
        (drop k (drop (length pre - 200) pre @ sedan_span @ take 200 post)) = None"
  shows "degraded_listing (pre @ sedan_span @ post) (length pre, length pre + 36) =
     Some [(''title'', Some (cps ''Car Cover for Sedan'' @ rstrip (takeWhile not_tag (take 200 post)))),
           (''price'', Some (cps ''899'')),
           (''location'', Some N_A), (''date'', Some N_A), (''url'', Some N_A)]"
proof -
  let ?w = "drop (length pre - 200) pre"
  let ?post = "take 200 post"
  have s: "re_search title_pattern (?w @ sedan_span @ ?post)
      = Some (length ?w + 17, length ?w + 36 + length (takeWhile not_tag ?post))"
    using search_from_skip [OF assms, of 0] title_search_sedan [of "length ?w" ?post]
    by (simp add: re_search_def)
  have p: "slice (pre @ sedan_span @ post) (length pre) (length pre + 36) = sedan_span"
    by (simp add: slice_def length_sedan_span)
  show ?thesis
    unfolding degraded_listing_def sedan_context s
    by (simp add: sedan_title_text sedan_title_strip p sedan_price del: length_drop)
qed

text \<open>
  C6 as stated fails: the title is the first match of the title pattern in the context
  of the price match, and the context reaches 200 characters back.  Here a heading before
  the span names a seat cover; the one listing emitted has the span's price and the
  heading's title.
\<close>

theorem sedan_span_counterexample:
  "extract_from_page_source seat_sedan_markup =
     [[(''title'', Some (cps ''Seat Cover'')), (''price'', Some (cps ''899'')),
       (''location'', Some N_A), (''date'', Some N_A), (''url'', Some N_A)]] \<and>
   \<not> occurs_in (cps ''Car Cover for Sedan'') (cps ''Seat Cover'')"
proof -
  have "\<not> is_substring (cps ''Car Cover for Sedan'') (cps ''Seat Cover'')"
    by (simp add: cps_def)
  then have "\<not> occurs_in (cps ''Car Cover for Sedan'') (cps ''Seat Cover'')"
    by (simp add: is_substring_occurs)
  moreover have "extract_from_page_source seat_sedan_markup =
     [[(''title'', Some (cps ''Seat Cover'')), (''price'', Some (cps ''899'')),
       (''location'', Some N_A), (''date'', Some N_A), (''url'', Some N_A)]]"
    by (simp add: seat_sedan_markup_def sedan_span_def eval_defs)
  ultimately show ?thesis by simp
qed

text \<open>
  C6, amended.  Let the markup be \<open>pre @ sedan_span @ post\<close>, where the span is followed
  by the end of the markup, by \<^verbatim>\<open><\<close> or by a newline, no match of the price pattern that
  begins before the span reaches into it, and no match of the title pattern begins in
  the 200 characters before the span.  Then exactly one price match meets the span, it
  is the span itself, and its listing has the price \<^verbatim>\<open>899\<close> and the title
  \<^verbatim>\<open>Car Cover for Sedan\<close> followed by the text up to the next tag boundary, trimmed.  The
  other listings come from the matches before and after the span.
\<close>

theorem sedan_span_listing:
  assumes "\<forall>m \<in> set (finditer price_pattern (pre @ sedan_span @ post)).
             fst m < length pre \<longrightarrow> snd m \<le> length pre"
    and "post = [] \<or> hd post = 60 \<or> hd post = 10"
    and "\<forall>k < length (drop (length pre - 200) pre).
           re_match title_pattern
             (drop k (drop (length pre - 200) pre @ sedan_span @ take 200 post)) = None"
  shows "\<exists>before after.
     finditer price_pattern (pre @ sedan_span @ post)
       = before @ (length pre, length pre + 36) # after \<and>
     (\<forall>m \<in> set before. snd m \<le> length pre) \<and>
     (\<forall>m \<in> set after. length pre + 36 \<le> fst m) \<and>
     extract_from_page_source (pre @ sedan_span @ post) =
       List.map_filter (degraded_listing (pre @ sedan_span @ post)) before @
       [(''title'',
           Some (cps ''Car Cover for Sedan'' @ rstrip (takeWhile not_tag (take 200 post)))),
        (''price'', Some (cps ''899'')),
        (''location'', Some N_A), (''date'', Some N_A), (''url'', Some N_A)] #
       List.map_filter (degraded_listing (pre @ sedan_span @ post)) after"
proof -
  let ?M = "pre @ sedan_span @ post"
  let ?after = "finditer_from price_pattern (length pre + 36) post"
  from assms(1) have "\<forall>m \<in> set (finditer_from price_pattern 0 (pre @ sedan_span @ post)).
      fst m < 0 + length pre \<longrightarrow> snd m \<le> 0 + length pre"
    by (simp add: finditer_def)
  from finditer_from_skip [OF this] obtain before where
    b: "finditer_from price_pattern 0 ?M
          = before @ finditer_from price_pattern (length pre) (sedan_span @ post)"
    and bl: "\<forall>m \<in> set before. snd m \<le> length pre"
    by auto
  have "finditer_from price_pattern (length pre) (sedan_span @ post)
      = (length pre, length pre + (length (sedan_span @ post) - length post)) #
        finditer_from price_pattern (length pre + (length (sedan_span @ post) - length post)) post"
    by (rule finditer_from_match [OF price_match_sedan [OF assms(2)]])
      (simp add: length_sedan_span)
  then have m: "finditer_from price_pattern (length pre) (sedan_span @ post)
      = (length pre, length pre + 36) # ?after"
    by (simp add: length_sedan_span)
  from b m have f: "finditer price_pattern ?M = before @ (length pre, length pre + 36) # ?after"
    by (simp add: finditer_def)
  have al: "\<forall>m \<in> set ?after. length pre + 36 \<le> fst m"
    using finditer_from_spans [of "length pre + 36" price_pattern post]
    by (simp add: span_ok_def)
  have "extract_from_page_source ?M = List.map_filter (degraded_listing ?M) (finditer price_pattern ?M)"
    using degraded_loop_map_filter [of ?M _ "[]"] by (simp add: extract_from_page_source_def)
  then have "extract_from_page_source ?M =
       List.map_filter (degraded_listing ?M) before @
       [(''title'',
           Some (cps ''Car Cover for Sedan'' @ rstrip (takeWhile not_tag (take 200 post)))),
        (''price'', Some (cps ''899'')),
        (''location'', Some N_A), (''date'', Some N_A), (''url'', Some N_A)] #
       List.map_filter (degraded_listing ?M) ?after"
    unfolding f map_filter_append
    by (simp add: map_filter_simps sedan_listing [OF assms(3)])
  with f bl al show ?thesis by blast
qed

theorem sedan_span_listing_witness:
  "finditer price_pattern div_sedan_markup = [(5, 41)] \<and>
   hd (cps ''</div>'') = 60 \<and>
   list_all (\<lambda>k. re_match title_pattern (drop k div_sedan_markup) = None) [0, 1, 2, 3, 4] \<and>
   extract_from_page_source div_sedan_markup =
     [[(''title'', Some (cps ''Car Cover for Sedan'')), (''price'', Some (cps ''899'')),
       (''location'', Some N_A), (''date'', Some N_A), (''url'', Some N_A)]]"
proof -
  let ?pre = "cps ''<div>''" and ?post = "cps ''</div>''"
  have M: "div_sedan_markup = ?pre @ sedan_span @ ?post"
    by (simp add: div_sedan_markup_def)
  have fi: "finditer price_pattern div_sedan_markup = [(5, 41)]"
    by (simp add: div_sedan_markup_def sedan_span_def eval_defs)
  then have h1: "\<forall>m \<in> set (finditer price_pattern (?pre @ sedan_span @ ?post)).
             fst m < length ?pre \<longrightarrow> snd m \<le> length ?pre"
    by (simp add: M cps_def)
  have h2: "?post = [] \<or> hd ?post = 60 \<or> hd ?post = 10"
    by (simp add: cps_def)
  have none: "list_all (\<lambda>k. re_match title_pattern (drop k div_sedan_markup) = None)
      [0, 1, 2, 3, 4]"
    by (simp add: div_sedan_markup_def sedan_span_def re_match_title cover_kw_def lit_i_def
        icase_def is_space_def rupee_def cps_def)
  have w: "drop (length ?pre - 200) ?pre @ sedan_span @ take 200 ?post = div_sedan_markup"
    by (simp add: M cps_def)
  have "\<forall>k < 5. re_match title_pattern (drop k div_sedan_markup) = None"
  proof (intro allI impI)
    fix k :: nat assume "k < 5"
    then have "k \<in> set [0, 1, 2, 3, 4]" by auto
    with none show "re_match title_pattern (drop k div_sedan_markup) = None"
      by (simp only: list_all_iff)
  qed
  then have h3: "\<forall>k < length (drop (length ?pre - 200) ?pre).
           re_match title_pattern
             (drop k (drop (length ?pre - 200) ?pre @ sedan_span @ take 200 ?post)) = None"
    unfolding w by (simp add: cps_def)
  from sedan_span_listing [OF h1 h2 h3] obtain before after where
    r: "finditer price_pattern (?pre @ sedan_span @ ?post)
          = before @ (length ?pre, length ?pre + 36) # after"
       "extract_from_page_source (?pre @ sedan_span @ ?post) =
         List.map_filter (degraded_listing (?pre @ sedan_span @ ?post)) before @
         [(''title'',
             Some (cps ''Car Cover for Sedan'' @ rstrip (takeWhile not_tag (take 200 ?post)))),
          (''price'', Some (cps ''899'')),
          (''location'', Some N_A), (''date'', Some N_A), (''url'', Some N_A)] #
         List.map_filter (degraded_listing (?pre @ sedan_span @ ?post)) after"
    by blast
  from r(1) fi have "before @ (length ?pre, length ?pre + 36) # after = [(5, 41)]"
    by (simp only: M)
  then have ba: "before = []" "after = []"
    by (simp_all add: append_eq_Cons_conv)
  have t: "rstrip (takeWhile not_tag (take 200 ?post)) = []"
    by (simp add: cps_def not_tag_def rstrip_def)
  from r(2) ba t have "extract_from_page_source div_sedan_markup =
     [[(''title'', Some (cps ''Car Cover for Sedan'')), (''price'', Some (cps ''899'')),
       (''location'', Some N_A), (''date'', Some N_A), (''url'', Some N_A)]]"
    by (simp add: M map_filter_simps)
  moreover have "hd ?post = 60" by (simp add: cps_def)
  ultimately show ?thesis using fi none by simp
qed

section \<open>The listing invariant\<close>

text \<open>
  What holds of the listings.  A record of \<^verbatim>\<open>extract_listing_data\<close> has the five keys;
  its title, price, location and date are well-formed texts, the price \<^verbatim>\<open>N/A\<close> or digits;
  its url is what the link's \<^verbatim>\<open>href\<close> gives.  A listing of the degraded extractor has the
  five keys, a well-formed title and \<^verbatim>\<open>N/A\<close> for location, date and url; its price is a
  well-formed text of digits or \<^verbatim>\<open>None\<close>.
\<close>

lemma field_listing_invariant:
  assumes "extract_listing_data n = Some d"
  shows "map fst d = [''title'', ''price'', ''location'', ''date'', ''url''] \<and>
    (\<exists>title price location date.
       map_of d ''title'' = Some (Some title) \<and> well_formed title \<and>
       map_of d ''price'' = Some (Some price) \<and> well_formed price \<and>
       (price = N_A \<or> list_all is_digit price) \<and>
       map_of d ''location'' = Some (Some location) \<and> well_formed location \<and>
       map_of d ''date'' = Some (Some date) \<and> well_formed date)"
proof -
  from extract_listing_data_record [OF assms] obtain url where
    d: "d = [(''title'', Some (first_text n title_selectors)),
              (''price'', Some (first_price n price_selectors)),
              (''location'', Some (first_text n location_selectors)),
              (''date'', Some (first_text n date_selectors)),
              (''url'', url)]" by blast
  have p: "well_formed (first_price n price_selectors) \<and>
      (first_price n price_selectors = N_A \<or> list_all is_digit (first_price n price_selectors))"
    using first_price_shape [of n price_selectors] well_formed_N_A digits_well_formed by auto
  from d p show ?thesis
    by (simp add: first_text_well_formed)
qed

lemma ends_Seq_Cls:
  assumes "x \<in> set (ends (Seq (Seq (Cls P) r1) r2) s)"
  shows "s \<noteq> [] \<and> P (hd s) \<and> length x < length s"
proof (cases s)
  case Nil
  with assms show ?thesis by simp
next
  case (Cons c cs)
  with assms have pc: "P c" by (auto split: if_splits)
  with assms Cons obtain y where y: "y \<in> set (ends r1 cs)" and x: "x \<in> set (ends r2 y)"
    by auto
  from ends_suffix [OF y] ends_suffix [OF x] have "length x \<le> length cs" by auto
  with pc Cons show ?thesis by simp
qed

lemma cover_kw_consumes:
  assumes "x \<in> set (ends (cover_kw (c # w)) s)"
  shows "s \<noteq> [] \<and> icase (of_char c) (hd s) \<and> length x < length s"
proof -
  have shape: "cover_kw (c # w) =
      Seq (Seq (Cls (icase (of_char c))) (lit_i w)) (Seq (Star is_space) (lit_i ''cover''))"
    by (simp add: cover_kw_def lit_i_def)
  from assms have "x \<in> set (ends (Seq (Seq (Cls (icase (of_char c))) (lit_i w))
      (Seq (Star is_space) (lit_i ''cover''))) s)"
    unfolding shape .
  then show ?thesis by (rule ends_Seq_Cls)
qed

lemma title_match_consumes:
  assumes "re_match title_pattern s = Some rest"
  shows "s \<noteq> [] \<and> \<not> is_space (hd s) \<and> length rest < length s"
proof -
  let ?kw = "Alt (cover_kw ''car'') (Alt (cover_kw ''seat'') (Alt (cover_kw ''body'')
                  (cover_kw ''wheel'')))"
  from assms obtain x xs where e: "ends ?kw s = x # xs" and r: "rest = dropWhile not_tag x"
    by (auto simp: re_match_title split: list.splits)
  then have "x \<in> set (ends ?kw s)" by simp
  then consider "x \<in> set (ends (cover_kw ''car'') s)" | "x \<in> set (ends (cover_kw ''seat'') s)"
    | "x \<in> set (ends (cover_kw ''body'') s)" | "x \<in> set (ends (cover_kw ''wheel'') s)"
    by auto
  then have "s \<noteq> [] \<and> (icase 99 (hd s) \<or> icase 115 (hd s) \<or> icase 98 (hd s) \<or> icase 119 (hd s))
      \<and> length x < length s"
  proof cases
    case 1
    from cover_kw_consumes [OF this] show ?thesis by simp
  next
    case 2
    from cover_kw_consumes [OF this] show ?thesis by simp
  next
    case 3
    from cover_kw_consumes [OF this] show ?thesis by simp
  next
    case 4
    from cover_kw_consumes [OF this] show ?thesis by simp
  qed
  moreover have "length rest \<le> length x"
    unfolding r by (rule length_dropWhile_le)
  moreover have "\<not> is_space c" if "icase 99 c \<or> icase 115 c \<or> icase 98 c \<or> icase 119 c" for c
    using that by (auto simp: is_space_def icase_def)
  ultimately show ?thesis by auto
qed

lemma strip_nonempty: "x \<noteq> [] \<Longrightarrow> \<not> is_space (hd x) \<Longrightarrow> strip x \<noteq> []"
proof -
  assume x: "x \<noteq> []" and h: "\<not> is_space (hd x)"
  then have l: "lstrip x = x" by (cases x) (simp_all add: lstrip_def)
  from x h have "hd x \<in> set (rev x)" "\<not> is_space (hd x)" by simp_all
  then have "dropWhile is_space (rev x) \<noteq> []"
    by (metis dropWhile_eq_Nil_conv)
  with l show ?thesis by (simp add: strip_def rstrip_def)
qed

lemma degraded_listing_invariant:
  assumes "degraded_listing markup m = Some d"
  shows "map fst d = [''title'', ''price'', ''location'', ''date'', ''url''] \<and>
    (\<exists>title. map_of d ''title'' = Some (Some title) \<and> well_formed title) \<and>
    map_of d ''location'' = Some (Some N_A) \<and> map_of d ''date'' = Some (Some N_A) \<and>
    map_of d ''url'' = Some (Some N_A) \<and>
    (map_of d ''price'' = Some None \<or>
     (\<exists>p. map_of d ''price'' = Some (Some p) \<and> well_formed p \<and> list_all is_digit p))"
proof -
  let ?c = "context_window markup m"
  let ?price = "extract_price (Some (slice markup (fst m) (snd m)))"
  from assms obtain a b where s: "re_search title_pattern ?c = Some (a, b)"
    and d: "d = [(''title'', Some (strip (slice ?c a b))), (''price'', ?price),
                (''location'', Some N_A), (''date'', Some N_A), (''url'', Some N_A)]"
    by (auto simp: degraded_listing_def split: option.splits)
  from search_from_Some [of title_pattern 0 ?c a b] s
  have ab: "b \<le> length ?c"
    and mt: "re_match title_pattern (drop a ?c) = Some (drop b ?c)"
    by (simp_all add: re_search_def)
  from title_match_consumes [OF mt]
  have ne: "drop a ?c \<noteq> []" "\<not> is_space (hd (drop a ?c))"
    and lt: "length (drop b ?c) < length (drop a ?c)"
    by simp_all
  from lt ab have "a < b" by simp
  with ne have "slice ?c a b \<noteq> []" "hd (slice ?c a b) = hd (drop a ?c)"
    by (simp_all add: slice_def)
  with ne(2) have "strip (slice ?c a b) \<noteq> []" by (simp add: strip_nonempty)
  then have t: "well_formed (strip (slice ?c a b))" by (rule strip_well_formed)
  have p: "?price = None \<or> (\<exists>p. ?price = Some p \<and> well_formed p \<and> list_all is_digit p)"
  proof (cases ?price)
    case None
    then show ?thesis by simp
  next
    case (Some p)
    from extract_price_Some_digits [OF this] digits_well_formed Some show ?thesis by auto
  qed
  from d t p show ?thesis by auto
qed

text \<open>
  C1.  The degraded extractor stores \<^verbatim>\<open>extract_price\<close> of the matched text as it is, while
  \<^verbatim>\<open>extract_listing_data\<close> stores \<^verbatim>\<open>price or 'N/A'\<close>.  A price match may consist of the
  rupee sign and commas only; then the listing's price is \<^verbatim>\<open>None\<close>, neither \<^verbatim>\<open>N/A\<close> nor a
  text of digits.  The rest of the invariant is in the two lemmas above.
\<close>

theorem degraded_price_None:
  "extract_from_page_source swift_markup =
     [[(''title'', Some (cps ''car cover for Swift'')), (''price'', None),
       (''location'', Some N_A), (''date'', Some N_A), (''url'', Some N_A)]]"
  by (simp add: swift_markup_def eval_defs)

end
